theory Spec2Isabelle
  imports Main
begin

section \<open>Time\<close>

text \<open>
  The program reads the wall clock with \<open>datetime.now()\<close> and stores instants as ISO-8601
  text. An instant is modelled as the number of microseconds on the clock's time line (the
  resolution of \<open>datetime\<close>); every function that reads the clock takes the reading as an
  argument. Instants written by \<open>isoformat()\<close> have fixed-width fields, so the text
  comparisons of the SQL queries order them as the instants themselves are ordered.
\<close>

type_synonym timestamp = int

definition seconds :: "int \<Rightarrow> int" where
  "seconds n = n * 1000000"

definition minutes :: "int \<Rightarrow> int" where
  "minutes n = n * 60000000"

section \<open>The vote database (votemute\_db.py)\<close>

text \<open>
  One record per table row. The six display-name columns of \<open>active_votes\<close> and
  \<open>vote_history\<close> only feed message texts and are left out.
\<close>

record vote =
  vote_id :: int
  chat_id :: int
  target_user_id :: int
  creator_id :: int
  mute_duration :: int
  required_votes :: int
  vote_duration :: int
  created_at :: timestamp
  expires_at :: timestamp
  is_pinned :: bool
  message_id :: "int option"

record ballot =
  b_vote_id :: int
  b_user_id :: int
  vote_type :: string
  voted_at :: timestamp
  last_change_at :: timestamp

datatype reason =
    MajorityFor
  | MajorityAgainst
  | TimeoutMajorityFor
  | TimeoutMajorityAgainst
  | TimeExpired

record history_row =
  h_vote_id :: int
  h_chat_id :: int
  h_target_user_id :: int
  h_creator_id :: int
  h_mute_duration :: int
  h_required_votes :: int
  h_vote_duration :: int
  h_created_at :: int
  h_finished_at :: timestamp
  h_result :: string
  h_reason :: reason
  h_votes_yes :: nat
  h_votes_no :: nat

record votemute_db =
  active_votes :: "vote list"
  vote_results :: "ballot list"
  vote_cooldowns :: "(int \<times> timestamp) list"
  vote_history :: "history_row list"
  last_vote_id :: int

definition ballot_of :: "int \<Rightarrow> int \<Rightarrow> ballot \<Rightarrow> bool" where
  "ballot_of vid uid b \<longleftrightarrow> b_vote_id b = vid \<and> b_user_id b = uid"

text \<open>\<open>create_vote\<close>: the row expires \<open>vote_duration\<close> minutes after the clock reading;
  the id is the next value of the AUTOINCREMENT counter.\<close>

definition create_vote ::
  "timestamp \<Rightarrow> int \<Rightarrow> int \<Rightarrow> int \<Rightarrow> int \<Rightarrow> int \<Rightarrow> int \<Rightarrow> bool \<Rightarrow> votemute_db
     \<Rightarrow> int \<times> votemute_db" where
  "create_vote now chat target creator mute_dur required vote_dur pinned db =
     (let vid = last_vote_id db + 1;
          row = \<lparr>vote_id = vid, chat_id = chat, target_user_id = target,
                 creator_id = creator, mute_duration = mute_dur, required_votes = required,
                 vote_duration = vote_dur, created_at = now,
                 expires_at = now + minutes vote_dur, is_pinned = pinned,
                 message_id = None\<rparr>
      in (vid, db\<lparr>active_votes := active_votes db @ [row], last_vote_id := vid\<rparr>))"

text \<open>\<open>get_active_vote\<close>: the newest row of the chat whose deadline is still ahead
  (\<open>ORDER BY created_at DESC LIMIT 1\<close>).\<close>

fun newest :: "vote list \<Rightarrow> vote option" where
  "newest [] = None"
| "newest (v # vs) =
     (case newest vs of
        None \<Rightarrow> Some v
      | Some w \<Rightarrow> if created_at w > created_at v then Some w else Some v)"

definition get_active_vote :: "timestamp \<Rightarrow> int \<Rightarrow> votemute_db \<Rightarrow> vote option" where
  "get_active_vote now chat db =
     newest (filter (\<lambda>v. chat_id v = chat \<and> expires_at v > now) (active_votes db))"

definition get_vote_by_id :: "int \<Rightarrow> votemute_db \<Rightarrow> vote option" where
  "get_vote_by_id vid db = find (\<lambda>v. vote_id v = vid) (active_votes db)"

text \<open>\<open>add_vote\<close>: a first ballot is inserted; a change is refused while fewer than 30
  seconds have passed since the voter's \<open>last_change_at\<close>, and otherwise overwrites the
  row.\<close>

definition add_vote ::
  "timestamp \<Rightarrow> int \<Rightarrow> int \<Rightarrow> string \<Rightarrow> votemute_db \<Rightarrow> bool \<times> votemute_db" where
  "add_vote now vid uid vtype db =
     (case find (ballot_of vid uid) (vote_results db) of
        Some existing \<Rightarrow>
          if now - last_change_at existing < seconds 30 then (False, db)
          else (True, db\<lparr>vote_results :=
                  map (\<lambda>b. if ballot_of vid uid b
                            then b\<lparr>vote_type := vtype, voted_at := now, last_change_at := now\<rparr>
                            else b) (vote_results db)\<rparr>)
      | None \<Rightarrow>
          (True, db\<lparr>vote_results := vote_results db @
                  [\<lparr>b_vote_id = vid, b_user_id = uid, vote_type = vtype,
                    voted_at = now, last_change_at = now\<rparr>]\<rparr>))"

text \<open>\<open>get_vote_results\<close>: the dictionary \<open>{"yes": .., "no": ..}\<close> as a pair.\<close>

definition count_type :: "string \<Rightarrow> int \<Rightarrow> ballot list \<Rightarrow> nat" where
  "count_type t vid bs = length (filter (\<lambda>b. b_vote_id b = vid \<and> vote_type b = t) bs)"

definition get_vote_results :: "int \<Rightarrow> votemute_db \<Rightarrow> nat \<times> nat" where
  "get_vote_results vid db =
     (count_type ''yes'' vid (vote_results db), count_type ''no'' vid (vote_results db))"

text \<open>
  \<open>finish_vote\<close> and \<open>cleanup_expired_votes\<close> move a vote to the history with the
  same statements. The history row is built from the first columns of the
  \<open>SELECT *\<close> row, starting at column 0 (the vote id), exactly as the source indexes it.
\<close>

definition archive_vote ::
  "timestamp \<Rightarrow> string \<Rightarrow> reason \<Rightarrow> vote \<Rightarrow> votemute_db \<Rightarrow> votemute_db" where
  "archive_vote now result rsn vote_data db =
     (let vid = vote_id vote_data;
          results = get_vote_results vid db;
          row = \<lparr>h_vote_id = vid, h_chat_id = vote_id vote_data,
                 h_target_user_id = chat_id vote_data,
                 h_creator_id = target_user_id vote_data,
                 h_mute_duration = creator_id vote_data,
                 h_required_votes = mute_duration vote_data,
                 h_vote_duration = required_votes vote_data,
                 h_created_at = vote_duration vote_data,
                 h_finished_at = now, h_result = result, h_reason = rsn,
                 h_votes_yes = fst results, h_votes_no = snd results\<rparr>
      in db\<lparr>vote_history := vote_history db @ [row],
             active_votes := filter (\<lambda>v. vote_id v \<noteq> vid) (active_votes db),
             vote_results := filter (\<lambda>b. b_vote_id b \<noteq> vid) (vote_results db)\<rparr>)"

definition finish_vote ::
  "timestamp \<Rightarrow> int \<Rightarrow> string \<Rightarrow> reason \<Rightarrow> votemute_db \<Rightarrow> vote option \<times> votemute_db" where
  "finish_vote now vid result rsn db =
     (case get_vote_by_id vid db of
        None \<Rightarrow> (None, db)
      | Some vote_data \<Rightarrow> (Some vote_data, archive_vote now result rsn vote_data db))"

definition check_cooldown :: "timestamp \<Rightarrow> int \<Rightarrow> votemute_db \<Rightarrow> bool" where
  "check_cooldown now chat db =
     (case map_of (vote_cooldowns db) chat of
        None \<Rightarrow> True
      | Some last_created \<Rightarrow> now - last_created \<ge> seconds 180)"

definition set_cooldown :: "timestamp \<Rightarrow> int \<Rightarrow> votemute_db \<Rightarrow> votemute_db" where
  "set_cooldown now chat db =
     db\<lparr>vote_cooldowns := (chat, now) # filter (\<lambda>kv. fst kv \<noteq> chat) (vote_cooldowns db)\<rparr>"

fun expire_all :: "timestamp \<Rightarrow> int list \<Rightarrow> votemute_db \<Rightarrow> votemute_db" where
  "expire_all now [] db = db"
| "expire_all now (vid # vids) db =
     (case get_vote_by_id vid db of
        None \<Rightarrow> expire_all now vids db
      | Some vote_data \<Rightarrow>
          expire_all now vids (archive_vote now ''failed'' TimeExpired vote_data db))"

definition cleanup_expired_votes :: "timestamp \<Rightarrow> votemute_db \<Rightarrow> nat \<times> votemute_db" where
  "cleanup_expired_votes now db =
     (let expired_votes = map vote_id (filter (\<lambda>v. expires_at v \<le> now) (active_votes db))
      in (length expired_votes, expire_all now expired_votes db))"

definition update_vote_message_id :: "int \<Rightarrow> int \<Rightarrow> votemute_db \<Rightarrow> votemute_db" where
  "update_vote_message_id vid mid db =
     db\<lparr>active_votes :=
          map (\<lambda>v. if vote_id v = vid then v\<lparr>message_id := Some mid\<rparr> else v) (active_votes db)\<rparr>"

section \<open>The punishment store\<close>

text \<open>
  Modelled from the spec: the module \<open>moderation_db\<close> is imported by the sources but is not
  among them. The three operations follow the contract of the Punishment Store: a
  punishment has a unique id and an active flag, \<open>get_active_punishments\<close> lists the active
  punishments of one kind in one chat, \<open>add_punishment\<close> creates a new active record, and
  \<open>deactivate_punishment\<close> is an atomic compare-and-set that flips the flag from true to
  false and reports whether this call did the flip. The arguments are those of the call
  sites in \<open>bot.py\<close> (display names left out).
\<close>

record punishment =
  p_id :: int
  p_chat_id :: int
  p_user_id :: int
  p_moderator_id :: int
  punishment_type :: string
  duration_seconds :: "int option"
  expiry_date :: "timestamp option"
  active :: bool

record moderation_db =
  punishments :: "punishment list"
  last_punishment_id :: int

definition add_punishment ::
  "int \<Rightarrow> int \<Rightarrow> int \<Rightarrow> string \<Rightarrow> int option \<Rightarrow> timestamp option \<Rightarrow> moderation_db
     \<Rightarrow> int \<times> moderation_db" where
  "add_punishment chat user moderator ptype duration expiry db =
     (let pid = last_punishment_id db + 1;
          row = \<lparr>p_id = pid, p_chat_id = chat, p_user_id = user, p_moderator_id = moderator,
                 punishment_type = ptype, duration_seconds = duration, expiry_date = expiry,
                 active = True\<rparr>
      in (pid, db\<lparr>punishments := punishments db @ [row], last_punishment_id := pid\<rparr>))"

definition get_active_punishments :: "int \<Rightarrow> string \<Rightarrow> moderation_db \<Rightarrow> punishment list" where
  "get_active_punishments chat ptype db =
     filter (\<lambda>p. p_chat_id p = chat \<and> punishment_type p = ptype \<and> active p) (punishments db)"

definition deactivate_punishment :: "int \<Rightarrow> moderation_db \<Rightarrow> bool \<times> moderation_db" where
  "deactivate_punishment pid db =
     (list_ex (\<lambda>p. p_id p = pid \<and> active p) (punishments db),
      db\<lparr>punishments :=
           map (\<lambda>p. if p_id p = pid then p\<lparr>active := False\<rparr> else p) (punishments db)\<rparr>)"

section \<open>The chat platform and the handlers' world\<close>

text \<open>
  Calls to the chat platform are recorded in order. A call may be refused by the platform
  (the client raises); whether it is accepted is given by the environment. The reputation
  bookkeeping that follows a stored mute touches no state modelled here and is left out.
\<close>

datatype answer =
    AnsNotFound | AnsFinished | AnsCreator | AnsTarget | AnsModerator | AnsCooldown
  | AnsCounted string | AnsError

datatype message_text =
    TextTally nat nat
  | TextMuted | TextMuteError | TextRejected | TextNotApplied
  | TextPrompt | TextUnmuted | TextUnbanned | TextUnbannedPrivate
  | TextPrivateChat | TextCooldown | TextAlreadyActive | TextBadFormat
  | TextSelf | TextBot | TextNotRegular | TextError
  | TextMutedBy | TextMuteFailed
  | TextNeedAdmin | TextNoPermission | TextUserNotFound | TextBadTime
  | TextNotPositive | TextTooLong | TextOwnerOrAdmin | TextRankTooLow

datatype api_call =
    RestrictMute int int timestamp
  | RestrictLift int int
  | UnbanMember int int
  | SendMessage int message_text
  | EditMessage int "int option" message_text
  | PinMessage int int
  | UnpinMessage int "int option"
  | DeleteMessage int
  | GetChat int
  | AnswerCallback answer

record env =
  member_status :: "int \<Rightarrow> int \<Rightarrow> string option"
  db_rank :: "int \<Rightarrow> int \<Rightarrow> int option option"
  has_permission :: "int \<Rightarrow> int \<Rightarrow> string \<Rightarrow> bool option"
  bot_is_admin :: "int \<Rightarrow> bool"
  api_ok :: "api_call \<Rightarrow> bool"
  bot_id :: int

record world =
  votes :: votemute_db
  moderation :: moderation_db
  calls :: "api_call list"
  vote_cache :: "((int \<times> int option) \<times> (nat \<times> nat)) list"
  timers :: "(int \<times> int) list"

definition RANK_OWNER :: int where "RANK_OWNER = 1"
definition RANK_USER :: int where "RANK_USER = 5"

text \<open>\<open>get_effective_rank\<close>: the chat's creator is the owner; otherwise the rank stored by
  the bot, and the baseline rank when there is none or a lookup raises. The platform's
  answer is \<open>None\<close> when \<open>get_chat_member\<close> raises, the stored rank is \<open>None\<close> when the
  lookup raises and \<open>Some None\<close> when no rank is stored.\<close>

definition get_effective_rank :: "env \<Rightarrow> int \<Rightarrow> int \<Rightarrow> int" where
  "get_effective_rank e chat user =
     (if member_status e chat user = Some ''creator'' then RANK_OWNER
      else case db_rank e chat user of
             None \<Rightarrow> RANK_USER
           | Some None \<Rightarrow> RANK_USER
           | Some (Some r) \<Rightarrow> r)"

definition call_api :: "api_call \<Rightarrow> world \<Rightarrow> world" where
  "call_api c w = w\<lparr>calls := calls w @ [c]\<rparr>"

text \<open>\<open>update_vote_message\<close>: the prompt is edited unless the cached tally of this
  message equals the new one; a failed edit is only logged.\<close>

definition update_vote_message :: "vote \<Rightarrow> nat \<times> nat \<Rightarrow> world \<Rightarrow> world" where
  "update_vote_message vote_data results w =
     (let cache_key = (chat_id vote_data, message_id vote_data)
      in if map_of (vote_cache w) cache_key = Some results then w
         else call_api (EditMessage (chat_id vote_data) (message_id vote_data)
                          (TextTally (fst results) (snd results)))
                (w\<lparr>vote_cache := (cache_key, results) #
                      filter (\<lambda>kv. fst kv \<noteq> cache_key) (vote_cache w)\<rparr>))"

text \<open>
  \<open>finish_votemute\<close>: returns at once when the vote is no longer in \<open>active_votes\<close>;
  otherwise moves it to the history and, for the result \<open>success\<close>, restricts the target
  until \<open>mute_duration\<close> seconds after the clock reading and stores the mute. When the
  platform refuses the restriction the mute is not stored. Then the prompt is unpinned,
  if it was pinned, and rewritten without its buttons. The two clock readings are those of
  \<open>finish_vote\<close> and of the computation of \<open>mute_until\<close>. The function
  suspends at every \<open>await\<close>; \<open>finish_votemute_body\<close> is what it does, with the
  row it has read, after its first one.
\<close>

definition apply_vote_mute :: "env \<Rightarrow> timestamp \<Rightarrow> vote \<Rightarrow> world \<Rightarrow> message_text \<times> world" where
  "apply_vote_mute e t_mute vote_data w =
     (let mute_until = t_mute + seconds (mute_duration vote_data);
          c = RestrictMute (chat_id vote_data) (target_user_id vote_data) mute_until;
          w1 = call_api c w
      in if api_ok e c
         then (TextMuted,
               w1\<lparr>moderation := snd (add_punishment (chat_id vote_data)
                     (target_user_id vote_data) (bot_id e) ''mute''
                     (Some (mute_duration vote_data)) (Some mute_until) (moderation w1))\<rparr>)
         else (TextMuteError, w1))"

definition finish_votemute_body ::
  "env \<Rightarrow> timestamp \<Rightarrow> timestamp \<Rightarrow> vote \<Rightarrow> int \<Rightarrow> string \<Rightarrow> reason \<Rightarrow> world \<Rightarrow> world" where
  "finish_votemute_body e t_hist t_mute vote_data vid result rsn w =
     (let w1 = w\<lparr>votes := snd (finish_vote t_hist vid result rsn (votes w))\<rparr>;
          tw = (if result = ''success'' then apply_vote_mute e t_mute vote_data w1
                else if result = ''failed'' then (TextRejected, w1)
                else (TextNotApplied, w1));
          w2 = (if is_pinned vote_data
                then call_api (UnpinMessage (chat_id vote_data) (message_id vote_data)) (snd tw)
                else snd tw)
      in call_api (EditMessage (chat_id vote_data) (message_id vote_data) (fst tw)) w2)"

definition finish_votemute ::
  "env \<Rightarrow> timestamp \<Rightarrow> timestamp \<Rightarrow> int \<Rightarrow> string \<Rightarrow> reason \<Rightarrow> world \<Rightarrow> world" where
  "finish_votemute e t_hist t_mute vid result rsn w =
     (case get_vote_by_id vid (votes w) of
        None \<Rightarrow> w
      | Some vote_data \<Rightarrow> finish_votemute_body e t_hist t_mute vote_data vid result rsn w)"

text \<open>
  \<open>vote_callback_handler\<close> for the callback data \<open>vote_yes_<id>\<close> and \<open>vote_no_<id>\<close>,
  given as the vote type and the id. The clock is read for the deadline check, by
  \<open>add_vote\<close>, and twice by \<open>finish_votemute\<close>.
\<close>

definition vote_callback_handler ::
  "env \<Rightarrow> timestamp \<Rightarrow> timestamp \<Rightarrow> timestamp \<Rightarrow> timestamp \<Rightarrow> int \<Rightarrow> string \<Rightarrow> int
     \<Rightarrow> world \<Rightarrow> world" where
  "vote_callback_handler e t_check t_vote t_hist t_mute user vtype vid w =
     (case get_vote_by_id vid (votes w) of
        None \<Rightarrow> call_api (AnswerCallback AnsNotFound) w
      | Some vote_data \<Rightarrow>
          if expires_at vote_data \<le> t_check then call_api (AnswerCallback AnsFinished) w
          else if user = creator_id vote_data then call_api (AnswerCallback AnsCreator) w
          else if user = target_user_id vote_data then call_api (AnswerCallback AnsTarget) w
          else if get_effective_rank e (chat_id vote_data) user \<noteq> RANK_USER
               then call_api (AnswerCallback AnsModerator) w
          else
            (let r = add_vote t_vote vid user vtype (votes w)
             in if \<not> fst r then call_api (AnswerCallback AnsCooldown) w
                else
                  (let w1 = w\<lparr>votes := snd r\<rparr>;
                       results = get_vote_results vid (votes w1);
                       w2 = update_vote_message vote_data results w1;
                       w3 = (if int (fst results + snd results) \<ge> required_votes vote_data
                             then if fst results > snd results
                                  then finish_votemute e t_hist t_mute vid ''success'' MajorityFor w2
                                  else finish_votemute e t_hist t_mute vid ''failed'' MajorityAgainst w2
                             else w2)
                   in call_api (AnswerCallback (AnsCounted vtype)) w3)))"

text \<open>\<open>votemute_timer\<close>, from the moment its sleep ends.\<close>

definition votemute_timer :: "env \<Rightarrow> timestamp \<Rightarrow> timestamp \<Rightarrow> int \<Rightarrow> world \<Rightarrow> world" where
  "votemute_timer e t_hist t_mute vid w =
     (case get_vote_by_id vid (votes w) of
        None \<Rightarrow> w
      | Some vote_data \<Rightarrow>
          (let results = get_vote_results vid (votes w)
           in if fst results > snd results
              then finish_votemute e t_hist t_mute vid ''success'' TimeoutMajorityFor w
              else finish_votemute e t_hist t_mute vid ''failed'' TimeoutMajorityAgainst w))"

text \<open>The platform call that applies the mute of a vote, and the test for such calls.\<close>

definition vote_mute_call :: "timestamp \<Rightarrow> vote \<Rightarrow> api_call" where
  "vote_mute_call t_mute v =
     RestrictMute (chat_id v) (target_user_id v) (t_mute + seconds (mute_duration v))"

definition is_restrict :: "api_call \<Rightarrow> bool" where
  "is_restrict c = (case c of RestrictMute _ _ _ \<Rightarrow> True | _ \<Rightarrow> False)"

section \<open>Issuing a mute (bot.py, mute\_command)\<close>

text \<open>
  \<open>check_permission\<close>: the permission stored for the member when there is one, and
  otherwise the test on the member's effective rank.
\<close>

definition check_permission :: "env \<Rightarrow> int \<Rightarrow> int \<Rightarrow> string \<Rightarrow> (int \<Rightarrow> bool) \<Rightarrow> bool" where
  "check_permission e chat user permission_type fallback_rank_check =
     (case has_permission e chat user permission_type of
        Some has_perm \<Rightarrow> has_perm
      | None \<Rightarrow> fallback_rank_check (get_effective_rank e chat user))"

text \<open>
  The command as the handler sees it: whether it has enough arguments, the member it names
  (\<open>None\<close> when nobody is found), and the duration in seconds that
  \<open>parse_mute_duration\<close> returns (\<open>None\<close> when the text is not a duration).
\<close>

record mute_request =
  q_chat :: int
  q_private :: bool
  q_sender :: int
  q_args_ok :: bool
  q_target :: "int option"
  q_target_is_bot :: bool
  q_duration :: "int option"

text \<open>
  The refusals of \<open>mute_command\<close>, in the source's order: the decorator
  \<open>require_admin_rights\<close> (outside a private chat the bot must be an administrator), the
  caller's permission, the arguments, the duration and its bounds, and the target, who must
  not be the caller, a bot, the owner or an administrator, nor of a rank equal to or above
  the caller's (a smaller number is a higher rank).
\<close>

definition mute_checks :: "env \<Rightarrow> mute_request \<Rightarrow> message_text option" where
  "mute_checks e rq =
     (if \<not> q_private rq \<and> \<not> bot_is_admin e (q_chat rq) then Some TextNeedAdmin
      else if \<not> check_permission e (q_chat rq) (q_sender rq) ''can_mute'' (\<lambda>r. r \<le> 4)
           then Some TextNoPermission
      else if \<not> q_args_ok rq then Some TextBadFormat
      else case q_target rq of
             None \<Rightarrow> Some TextUserNotFound
           | Some target \<Rightarrow>
               (case q_duration rq of
                  None \<Rightarrow> Some TextBadTime
                | Some duration \<Rightarrow>
                    if duration \<le> 0 then Some TextNotPositive
                    else if duration > 366 * 24 * 3600 then Some TextTooLong
                    else if target = q_sender rq then Some TextSelf
                    else if q_target_is_bot rq then Some TextBot
                    else if get_effective_rank e (q_chat rq) target \<le> 2
                         then Some TextOwnerOrAdmin
                    else if get_effective_rank e (q_chat rq) target
                              \<le> get_effective_rank e (q_chat rq) (q_sender rq)
                         then Some TextRankTooLow
                    else None))"

text \<open>
  After the checks the target is restricted; then every active mute of the target in the
  chat is deactivated and the new mute stored. When the platform refuses the restriction
  nothing is stored.
\<close>

fun deactivate_user_mutes :: "int \<Rightarrow> punishment list \<Rightarrow> moderation_db \<Rightarrow> moderation_db" where
  "deactivate_user_mutes target [] db = db"
| "deactivate_user_mutes target (mute # rest) db =
     (if p_user_id mute = target
      then deactivate_user_mutes target rest (snd (deactivate_punishment (p_id mute) db))
      else deactivate_user_mutes target rest db)"

definition apply_mute ::
  "env \<Rightarrow> timestamp \<Rightarrow> int \<Rightarrow> int \<Rightarrow> int \<Rightarrow> int \<Rightarrow> world \<Rightarrow> world" where
  "apply_mute e now chat user target duration w =
     (let mute_until = now + seconds duration;
          c = RestrictMute chat target mute_until;
          w1 = call_api c w
      in if \<not> api_ok e c then call_api (SendMessage chat TextMuteFailed) w1
         else
           (let active_mutes = get_active_punishments chat ''mute'' (moderation w1);
                m1 = deactivate_user_mutes target active_mutes (moderation w1);
                m2 = snd (add_punishment chat target user ''mute'' (Some duration)
                            (Some mute_until) m1)
            in call_api (SendMessage chat TextMutedBy) (w1\<lparr>moderation := m2\<rparr>)))"

definition mute_command :: "env \<Rightarrow> timestamp \<Rightarrow> mute_request \<Rightarrow> world \<Rightarrow> world" where
  "mute_command e now rq w =
     (case mute_checks e rq of
        Some refusal \<Rightarrow> call_api (SendMessage (q_chat rq) refusal) w
      | None \<Rightarrow>
          (case q_target rq of
             None \<Rightarrow> w
           | Some target \<Rightarrow>
               (case q_duration rq of
                  None \<Rightarrow> w
                | Some duration \<Rightarrow>
                    apply_mute e now (q_chat rq) (q_sender rq) target duration w)))"

definition active_mutes_of :: "int \<Rightarrow> int \<Rightarrow> moderation_db \<Rightarrow> punishment list" where
  "active_mutes_of chat user db =
     filter (\<lambda>p. p_user_id p = user) (get_active_punishments chat ''mute'' db)"

section \<open>The sweep of expired votes (scheduler.py)\<close>

text \<open>
  One round of \<open>cleanup_expired_votes_task\<close>: it calls \<open>cleanup_expired_votes\<close> and
  writes a log line with the number it returns. It makes no platform call and does not
  touch the punishment store.
\<close>

definition cleanup_expired_votes_task :: "timestamp \<Rightarrow> world \<Rightarrow> world" where
  "cleanup_expired_votes_task now w = w\<lparr>votes := snd (cleanup_expired_votes now (votes w))\<rparr>"

section \<open>Creating a vote (bot.py)\<close>

text \<open>
  \<open>votemute_command\<close>: the checks that refuse the request, in the source's order, and
  then the creation with the standard settings. The target is \<open>None\<close> when the command
  is malformed or names an unknown user. Between the checks and the creation the function
  suspends (every database and platform call is awaited); \<open>votemute_checks\<close> is the part
  before \<open>set_cooldown\<close> and \<open>votemute_create\<close> the part from it on.
\<close>

record vm_request =
  r_chat :: int
  r_private :: bool
  r_sender :: int
  r_target :: "int option"
  r_target_is_bot :: bool

definition live_votes :: "timestamp \<Rightarrow> int \<Rightarrow> votemute_db \<Rightarrow> vote list" where
  "live_votes now chat db =
     filter (\<lambda>v. chat_id v = chat \<and> expires_at v > now) (active_votes db)"

definition votemute_checks ::
  "env \<Rightarrow> timestamp \<Rightarrow> timestamp \<Rightarrow> vm_request \<Rightarrow> world \<Rightarrow> message_text option" where
  "votemute_checks e t_cool t_active rq w =
     (if r_private rq then Some TextPrivateChat
      else if \<not> check_cooldown t_cool (r_chat rq) (votes w) then Some TextCooldown
      else if get_active_vote t_active (r_chat rq) (votes w) \<noteq> None then Some TextAlreadyActive
      else case r_target rq of
             None \<Rightarrow> Some TextBadFormat
           | Some target \<Rightarrow>
               if target = r_sender rq then Some TextSelf
               else if r_target_is_bot rq then Some TextBot
               else if get_effective_rank e (r_chat rq) target \<noteq> RANK_USER
                    then Some TextNotRegular
               else None)"

definition start_vote ::
  "env \<Rightarrow> timestamp \<Rightarrow> timestamp \<Rightarrow> int \<Rightarrow> int \<Rightarrow> int \<Rightarrow> int \<Rightarrow> int \<Rightarrow> int \<Rightarrow> bool \<Rightarrow> int
     \<Rightarrow> world \<Rightarrow> world" where
  "start_vote e t_set t_create chat target creator mute_dur required vote_dur pinned mid w =
     (let db1 = set_cooldown t_set chat (votes w);
          cv = create_vote t_create chat target creator mute_dur required vote_dur pinned db1;
          w1 = call_api (SendMessage chat TextPrompt) (w\<lparr>votes := snd cv\<rparr>)
      in if \<not> api_ok e (SendMessage chat TextPrompt) then w1
         else
           (let w2 = w1\<lparr>votes := update_vote_message_id (fst cv) mid (votes w1)\<rparr>;
                w3 = (if pinned then call_api (PinMessage chat mid) w2 else w2)
            in w3\<lparr>timers := timers w3 @ [(fst cv, vote_dur * 60)]\<rparr>))"

definition votemute_create ::
  "env \<Rightarrow> timestamp \<Rightarrow> timestamp \<Rightarrow> vm_request \<Rightarrow> int \<Rightarrow> int \<Rightarrow> world \<Rightarrow> world" where
  "votemute_create e t_set t_create rq target mid w =
     (let w1 = start_vote e t_set t_create (r_chat rq) target (r_sender rq) (30 * 60) 5 5 False
                 mid w
      in if \<not> api_ok e (SendMessage (r_chat rq) TextPrompt)
         then call_api (SendMessage (r_chat rq) TextError) w1
         else w1)"

definition votemute_command ::
  "env \<Rightarrow> timestamp \<Rightarrow> timestamp \<Rightarrow> timestamp \<Rightarrow> timestamp \<Rightarrow> vm_request \<Rightarrow> int \<Rightarrow> world
     \<Rightarrow> world" where
  "votemute_command e t_cool t_active t_set t_create rq mid w =
     (case votemute_checks e t_cool t_active rq w of
        Some refusal \<Rightarrow> call_api (SendMessage (r_chat rq) refusal) w
      | None \<Rightarrow>
          (case r_target rq of
             None \<Rightarrow> w
           | Some target \<Rightarrow> votemute_create e t_set t_create rq target mid w))"

text \<open>
  \<open>create_votemute_vote\<close>, reached by the callback \<open>votemute_start\<close> of the settings
  panel: the settings come from the conversation state, \<open>None\<close> when the state lacks one
  of them (the lookup raises after the cooldown is set). The mute duration of the state is
  in minutes.
\<close>

record panel_state =
  s_target_user_id :: int
  s_mute_duration :: int
  s_required_votes :: int
  s_vote_duration :: int
  s_pin_message :: bool

definition create_votemute_vote ::
  "env \<Rightarrow> timestamp \<Rightarrow> timestamp \<Rightarrow> int \<Rightarrow> int \<Rightarrow> panel_state option \<Rightarrow> int \<Rightarrow> world \<Rightarrow> world" where
  "create_votemute_vote e t_set t_create chat user_id data mid w =
     (case data of
        None \<Rightarrow>
          call_api (AnswerCallback AnsError) (w\<lparr>votes := set_cooldown t_set chat (votes w)\<rparr>)
      | Some d \<Rightarrow>
          (let w1 = start_vote e t_set t_create chat (s_target_user_id d) user_id
                      (s_mute_duration d * 60) (s_required_votes d) (s_vote_duration d)
                      (s_pin_message d) mid w
           in if \<not> api_ok e (SendMessage chat TextPrompt)
              then call_api (AnswerCallback AnsError) w1
              else call_api (DeleteMessage chat) w1))"

text \<open>Deactivating the punishments whose id is in a set.\<close>

definition retire :: "int set \<Rightarrow> punishment \<Rightarrow> punishment" where
  "retire S p = (if p_id p \<in> S then p\<lparr>active := False\<rparr> else p)"

section \<open>Example data\<close>

definition cooldown_db :: votemute_db where
  "cooldown_db =
     \<lparr>active_votes = [], 
      vote_results = [\<lparr>b_vote_id = 1, b_user_id = 7, vote_type = ''yes'',
                       voted_at = 0, last_change_at = 0\<rparr>],
      vote_cooldowns = [], vote_history = [], last_vote_id = 1\<rparr>"

text \<open>A vote in chat 100 on user 20, created by user 10 at instant 0: a mute of 30
  minutes, five ballots required, a window of five minutes.\<close>

definition demo_vote :: vote where
  "demo_vote =
     \<lparr>vote_id = 1, chat_id = 100, target_user_id = 20, creator_id = 10,
      mute_duration = 1800, required_votes = 5, vote_duration = 5,
      created_at = 0, expires_at = minutes 5, is_pinned = False,
      message_id = Some 500\<rparr>"

definition cast :: "int \<Rightarrow> string \<Rightarrow> ballot" where
  "cast uid t = \<lparr>b_vote_id = 1, b_user_id = uid, vote_type = t,
                 voted_at = seconds 60, last_change_at = seconds 60\<rparr>"

text \<open>User 40 holds rank 3 (a senior moderator); nobody else has a stored rank, and no
  permissions are stored. The bot is an administrator and the platform accepts every
  call.\<close>

definition demo_env :: env where
  "demo_env =
     \<lparr>member_status = (\<lambda>chat user. Some ''member''),
      db_rank = (\<lambda>chat user. if user = 40 then Some (Some 3) else Some None),
      has_permission = (\<lambda>chat user permission_type. None),
      bot_is_admin = (\<lambda>chat. True),
      api_ok = (\<lambda>c. True),
      bot_id = 999\<rparr>"

definition no_punishments :: moderation_db where
  "no_punishments = \<lparr>punishments = [], last_punishment_id = 0\<rparr>"

text \<open>The vote with two ballots for and two against.\<close>

definition tie_world :: world where
  "tie_world =
     \<lparr>votes = \<lparr>active_votes = [demo_vote],
                vote_results = [cast 31 ''yes'', cast 32 ''yes'', cast 33 ''no'', cast 34 ''no''],
                vote_cooldowns = [(100, 0)], vote_history = [], last_vote_id = 1\<rparr>,
      moderation = no_punishments, calls = [], vote_cache = [], timers = [(1, 300)]\<rparr>"

text \<open>The vote with a single ballot, for.\<close>

definition expired_db :: votemute_db where
  "expired_db =
     \<lparr>active_votes = [demo_vote], vote_results = [cast 30 ''yes''],
      vote_cooldowns = [(100, 0)], vote_history = [], last_vote_id = 1\<rparr>"

text \<open>The vote with three ballots for, and the same with the target already muted by
  the moderator (punishment 1, active for an hour).\<close>

definition majority_world :: world where
  "majority_world =
     \<lparr>votes = \<lparr>active_votes = [demo_vote],
                vote_results = [cast 31 ''yes'', cast 32 ''yes'', cast 33 ''yes''],
                vote_cooldowns = [(100, 0)], vote_history = [], last_vote_id = 1\<rparr>,
      moderation = no_punishments, calls = [], vote_cache = [], timers = [(1, 300)]\<rparr>"

definition prior_mute :: punishment where
  "prior_mute =
     \<lparr>p_id = 1, p_chat_id = 100, p_user_id = 20, p_moderator_id = 40,
      punishment_type = ''mute'', duration_seconds = Some 3600,
      expiry_date = Some (minutes 60), active = True\<rparr>"

text \<open>The moderator's command to mute user 20 for 30 minutes, and the same command sent
  by user 10, who has the baseline rank.\<close>

definition moderator_mute :: mute_request where
  "moderator_mute =
     \<lparr>q_chat = 100, q_private = False, q_sender = 40, q_args_ok = True, q_target = Some 20,
      q_target_is_bot = False, q_duration = Some 1800\<rparr>"

definition member_mute :: mute_request where
  "member_mute = moderator_mute\<lparr>q_sender := 10\<rparr>"

definition muted_world :: world where
  "muted_world =
     majority_world\<lparr>moderation := \<lparr>punishments = [prior_mute], last_punishment_id = 1\<rparr>\<rparr>"

text \<open>The vote after a fifth ballot has brought the tally to three for and two against.
  Two calls of \<open>finish_votemute\<close> for it, the handler's and the timer's, have both
  read the vote row in \<open>threshold_world\<close> before either goes on: the world after the
  first has run to its end, and after the second has.\<close>

definition threshold_world :: world where
  "threshold_world =
     tie_world\<lparr>votes := snd (add_vote (minutes 4) 1 35 ''yes'' (votes tie_world))\<rparr>"

definition first_resolved :: world where
  "first_resolved =
     finish_votemute_body demo_env (minutes 5) (minutes 5) demo_vote 1 ''success'' MajorityFor
       threshold_world"

definition both_resolved :: world where
  "both_resolved =
     finish_votemute_body demo_env (minutes 5) (minutes 5) demo_vote 1 ''success''
       TimeoutMajorityFor first_resolved"

text \<open>A chat without votes, two requests for a vote in it, and the settings of a panel.\<close>

definition empty_world :: world where
  "empty_world =
     \<lparr>votes = \<lparr>active_votes = [], vote_results = [], vote_cooldowns = [], vote_history = [],
                last_vote_id = 0\<rparr>,
      moderation = no_punishments, calls = [], vote_cache = [], timers = []\<rparr>"

definition request_a :: vm_request where
  "request_a = \<lparr>r_chat = 100, r_private = False, r_sender = 10, r_target = Some 20,
                 r_target_is_bot = False\<rparr>"

definition request_b :: vm_request where
  "request_b = \<lparr>r_chat = 100, r_private = False, r_sender = 11, r_target = Some 21,
                 r_target_is_bot = False\<rparr>"

definition panel :: panel_state where
  "panel = \<lparr>s_target_user_id = 21, s_mute_duration = 30, s_required_votes = 5,
             s_vote_duration = 5, s_pin_message = False\<rparr>"

section \<open>The expiry loops (scheduler.py)\<close>

text \<open>
  \<open>mute_expiry_task\<close> and \<open>ban_expiry_task\<close> start one coroutine per chat,
  \<open>process_chat_mutes\<close> and \<open>process_chat_bans\<close>, and several of them may be under way
  at once. A coroutine runs undisturbed from one \<open>await\<close> to the next and may be
  suspended at each. It is modelled as a machine that takes one step at a time: the
  position in the coroutine is a value of \<open>scan_pc\<close>, holding the local variables (the
  punishments still to visit, the punishment at hand, the answer of
  \<open>deactivate_punishment\<close>, the platform calls still to make). The machine may be
  interleaved between any two steps, which includes every interleaving at the awaits.
  What the outside gives to a step is part of the step: the clock reading, whether the
  platform accepts the call (\<open>Gone\<close> stands for the errors "chat not found" and "bad
  request", \<open>Failed\<close> for any other), and the bot's member status.
\<close>

datatype api_result = Accepted | Gone | Failed

datatype scan_kind = MuteScan | BanScan

datatype scan_pc =
    AtStart
  | AtFetch
  | AtLoop "punishment list"
  | AtCas punishment "punishment list"
  | AtResult bool punishment "punishment list"
  | AtCalls "api_call list" punishment "punishment list"
  | Finished

record scan_task =
  kind :: scan_kind
  task_chat :: int
  current_time :: timestamp
  pc :: scan_pc

text \<open>The trace records, per task and punishment id, each answer of
  \<open>deactivate_punishment\<close> and each platform call made for the punishment.\<close>

datatype scan_event =
    Deactivated nat int bool
  | Called nat int api_call

record scan_world =
  store :: moderation_db
  recently_processed :: "(int \<times> timestamp) list"
  trace :: "scan_event list"

definition processed_recently :: "(int \<times> timestamp) list \<Rightarrow> timestamp \<Rightarrow> int \<Rightarrow> bool" where
  "processed_recently cache current_time_ref mute_id =
     (case map_of cache mute_id of
        None \<Rightarrow> False
      | Some ts \<Rightarrow> current_time_ref - ts < seconds 30)"

definition mark_processed :: "int \<Rightarrow> timestamp \<Rightarrow> scan_world \<Rightarrow> scan_world" where
  "mark_processed mute_id current_time_ref w =
     w\<lparr>recently_processed :=
         (mute_id, current_time_ref) # filter (\<lambda>kv. fst kv \<noteq> mute_id) (recently_processed w)\<rparr>"

definition try_deactivate ::
  "nat \<Rightarrow> punishment \<Rightarrow> punishment list \<Rightarrow> scan_world \<Rightarrow> scan_pc \<times> scan_world" where
  "try_deactivate i p rest w =
     (let r = deactivate_punishment (p_id p) (store w)
      in (AtResult (fst r) p rest,
          w\<lparr>store := snd r, trace := trace w @ [Deactivated i (p_id p) (fst r)]\<rparr>))"

definition make_call :: "nat \<Rightarrow> punishment \<Rightarrow> api_call \<Rightarrow> scan_world \<Rightarrow> scan_world" where
  "make_call i p c w = w\<lparr>trace := trace w @ [Called i (p_id p) c]\<rparr>"

text \<open>The calls that lift an expired mute: the restriction is removed and the chat is told.\<close>

definition mute_reversal :: "int \<Rightarrow> punishment \<Rightarrow> api_call list" where
  "mute_reversal chat mute =
     [RestrictLift chat (p_user_id mute), SendMessage chat TextUnmuted]"

text \<open>The calls that lift an expired ban: the member is unbanned, the chat is told, and
  the member is told in private, with the chat's title looked up first.\<close>

definition ban_reversal :: "int \<Rightarrow> punishment \<Rightarrow> api_call list" where
  "ban_reversal chat ban =
     [UnbanMember chat (p_user_id ban), SendMessage chat TextUnbanned, GetChat chat,
      SendMessage (p_user_id ban) TextUnbannedPrivate]"

fun process_chat_mutes ::
  "nat \<Rightarrow> timestamp \<Rightarrow> api_result \<Rightarrow> string \<Rightarrow> int \<Rightarrow> timestamp \<Rightarrow> scan_pc \<Rightarrow> scan_world
     \<Rightarrow> scan_pc \<times> scan_world" where
  "process_chat_mutes i now ans status chat current_time_ref AtStart w =
     (if ans = Accepted \<and> (status = ''administrator'' \<or> status = ''creator'')
      then (AtFetch, w) else (Finished, w))"
| "process_chat_mutes i now ans status chat current_time_ref AtFetch w =
     (let active_mutes = get_active_punishments chat ''mute'' (store w)
      in if active_mutes = [] then (Finished, w) else (AtLoop active_mutes, w))"
| "process_chat_mutes i now ans status chat current_time_ref (AtLoop []) w = (Finished, w)"
| "process_chat_mutes i now ans status chat current_time_ref (AtLoop (mute # rest)) w =
     (if processed_recently (recently_processed w) current_time_ref (p_id mute)
      then (AtLoop rest, w)
      else case expiry_date mute of
             None \<Rightarrow> (AtLoop rest, w)
           | Some expiry \<Rightarrow>
               if now - expiry < 0 then (AtLoop rest, w) else (AtCas mute rest, w))"
| "process_chat_mutes i now ans status chat current_time_ref (AtCas mute rest) w =
     try_deactivate i mute rest w"
| "process_chat_mutes i now ans status chat current_time_ref (AtResult deactivated mute rest) w =
     (let w1 = mark_processed (p_id mute) current_time_ref w
      in if \<not> deactivated then (AtLoop rest, w1)
         else (AtCalls (mute_reversal chat mute) mute rest, w1))"
| "process_chat_mutes i now ans status chat current_time_ref (AtCalls [] mute rest) w =
     (AtLoop rest, w)"
| "process_chat_mutes i now ans status chat current_time_ref (AtCalls (c # cs) mute rest) w =
     (AtCalls cs mute rest, make_call i mute c w)"
| "process_chat_mutes i now ans status chat current_time_ref Finished w = (Finished, w)"

fun process_chat_bans ::
  "nat \<Rightarrow> timestamp \<Rightarrow> api_result \<Rightarrow> int \<Rightarrow> scan_pc \<Rightarrow> scan_world \<Rightarrow> scan_pc \<times> scan_world" where
  "process_chat_bans i now ans chat AtStart w =
     (let active_bans = get_active_punishments chat ''ban'' (store w)
      in if active_bans = [] then (Finished, w) else (AtLoop active_bans, w))"
| "process_chat_bans i now ans chat AtFetch w = (Finished, w)"
| "process_chat_bans i now ans chat (AtLoop []) w = (Finished, w)"
| "process_chat_bans i now ans chat (AtLoop (ban # rest)) w =
     (case expiry_date ban of
        None \<Rightarrow> (AtLoop rest, w)
      | Some expiry \<Rightarrow> if now \<ge> expiry then (AtCas ban rest, w) else (AtLoop rest, w))"
| "process_chat_bans i now ans chat (AtCas ban rest) w = try_deactivate i ban rest w"
| "process_chat_bans i now ans chat (AtResult deactivated ban rest) w =
     (if \<not> deactivated then (AtLoop rest, w)
      else (AtCalls (ban_reversal chat ban) ban rest, w))"
| "process_chat_bans i now ans chat (AtCalls [] ban rest) w = (AtLoop rest, w)"
| "process_chat_bans i now ans chat (AtCalls (c # cs) ban rest) w =
     (if c = GetChat chat \<and> ans = Failed then (AtLoop rest, make_call i ban c w)
      else (AtCalls cs ban rest, make_call i ban c w))"
| "process_chat_bans i now ans chat Finished w = (Finished, w)"

definition scan_step ::
  "nat \<Rightarrow> timestamp \<Rightarrow> api_result \<Rightarrow> string \<Rightarrow> scan_task \<Rightarrow> scan_world \<Rightarrow> scan_pc \<times> scan_world" where
  "scan_step i now ans status t w =
     (case kind t of
        MuteScan \<Rightarrow> process_chat_mutes i now ans status (task_chat t) (current_time t) (pc t) w
      | BanScan \<Rightarrow> process_chat_bans i now ans (task_chat t) (pc t) w)"

text \<open>
  A schedule is a list of actions: a step of one task; the pruning of the cache at the
  start of an iteration of \<open>mute_expiry_task\<close>; and what other handlers do to the store
  meanwhile, deactivating a punishment (the unmute and unban commands, a reissued mute) or
  adding one.
\<close>

datatype action =
    Run nat timestamp api_result string
  | Prune timestamp
  | Revoke int
  | Issue int int int string "int option" "timestamp option"

type_synonym scan_config = "(nat \<Rightarrow> scan_task) \<times> scan_world"

fun perform :: "action \<Rightarrow> scan_config \<Rightarrow> scan_config" where
  "perform (Run i now ans status) (ts, w) =
     (let r = scan_step i now ans status (ts i) w
      in (ts(i := (ts i)\<lparr>pc := fst r\<rparr>), snd r))"
| "perform (Prune t) (ts, w) =
     (ts, w\<lparr>recently_processed := filter (\<lambda>kv. t - snd kv < seconds 60) (recently_processed w)\<rparr>)"
| "perform (Revoke pid) (ts, w) = (ts, w\<lparr>store := snd (deactivate_punishment pid (store w))\<rparr>)"
| "perform (Issue chat user moderator ptype duration expiry) (ts, w) =
     (ts, w\<lparr>store := snd (add_punishment chat user moderator ptype duration expiry (store w))\<rparr>)"

fun run_schedule :: "action list \<Rightarrow> scan_config \<Rightarrow> scan_config" where
  "run_schedule [] cfg = cfg"
| "run_schedule (a # as) cfg = run_schedule as (perform a cfg)"

text \<open>Reading a trace: the tasks whose \<open>deactivate_punishment\<close> on a punishment
  answered true, the platform calls made for a punishment with the task that made each,
  and all events about a punishment.\<close>

fun event_pid :: "scan_event \<Rightarrow> int" where
  "event_pid (Deactivated i pid b) = pid"
| "event_pid (Called i pid c) = pid"

fun winner :: "int \<Rightarrow> scan_event \<Rightarrow> nat option" where
  "winner pid (Deactivated i p b) = (if p = pid \<and> b then Some i else None)"
| "winner pid (Called i p c) = None"

fun effect :: "int \<Rightarrow> scan_event \<Rightarrow> (nat \<times> api_call) option" where
  "effect pid (Deactivated i p b) = None"
| "effect pid (Called i p c) = (if p = pid then Some (i, c) else None)"

definition winners :: "int \<Rightarrow> scan_event list \<Rightarrow> nat list" where
  "winners pid tr = List.map_filter (winner pid) tr"

definition effects :: "int \<Rightarrow> scan_event list \<Rightarrow> (nat \<times> api_call) list" where
  "effects pid tr = List.map_filter (effect pid) tr"

text \<open>The store is well formed when ids are unique and none exceeds the counter from
  which \<open>add_punishment\<close> takes the next id.\<close>

definition wf_store :: "moderation_db \<Rightarrow> bool" where
  "wf_store db \<longleftrightarrow>
     distinct (map p_id (punishments db))
     \<and> list_all (\<lambda>p. p_id p \<le> last_punishment_id db) (punishments db)"

text \<open>The clock readings of a schedule, and the punishments that other handlers
  deactivate in it.\<close>

fun clock_readings :: "action list \<Rightarrow> timestamp list" where
  "clock_readings [] = []"
| "clock_readings (Run i now ans status # as) = now # clock_readings as"
| "clock_readings (a # as) = clock_readings as"

fun revoked :: "action list \<Rightarrow> int list" where
  "revoked [] = []"
| "revoked (Revoke pid # as) = pid # revoked as"
| "revoked (a # as) = revoked as"

section \<open>Invariants of the expiry loops\<close>

text \<open>
  \<open>settled pid\<close> holds of a configuration when, for the punishment id: at most one
  answer to a scan was true, and then every record with the id is inactive for good; every
  call made for the id was made by the task that won; no call was made twice; and a task
  holding the true answer, or part way through the calls, is the winner and its remaining
  calls are new.
\<close>

definition settled :: "int \<Rightarrow> scan_config \<Rightarrow> bool" where
  "settled pid cfg \<longleftrightarrow>
     (case cfg of (ts, w) \<Rightarrow>
        length (winners pid (trace w)) \<le> 1
      \<and> (winners pid (trace w) \<noteq> [] \<longrightarrow>
           pid \<le> last_punishment_id (store w)
           \<and> (\<forall>p \<in> set (punishments (store w)). p_id p = pid \<longrightarrow> \<not> active p))
      \<and> (\<forall>e \<in> set (effects pid (trace w)). winners pid (trace w) = [fst e])
      \<and> distinct (map snd (effects pid (trace w)))
      \<and> (\<forall>i m ms. pc (ts i) = AtResult True m ms \<and> p_id m = pid \<longrightarrow>
             winners pid (trace w) = [i] \<and> effects pid (trace w) = [])
      \<and> (\<forall>i cs m ms. pc (ts i) = AtCalls cs m ms \<and> p_id m = pid \<longrightarrow>
             winners pid (trace w) = [i] \<and> distinct (map snd (effects pid (trace w)) @ cs)))"

text \<open>A step that changes neither the store nor the trace and does not enter the
  reversal.\<close>

definition quiet :: "scan_pc \<Rightarrow> scan_world \<Rightarrow> scan_world \<Rightarrow> bool" where
  "quiet pc' w w' \<longleftrightarrow>
     trace w' = trace w \<and> store w' = store w
     \<and> (\<forall>m ms. pc' \<noteq> AtResult True m ms) \<and> (\<forall>cs m ms. pc' \<noteq> AtCalls cs m ms)"

text \<open>The punishment a task is dealing with and the punishments it has still to visit; a
  punishment is due at a clock reading when it has an expiry date that is not later.\<close>

fun current :: "scan_pc \<Rightarrow> punishment option" where
  "current (AtCas m ms) = Some m"
| "current (AtResult b m ms) = Some m"
| "current (AtCalls cs m ms) = Some m"
| "current pc0 = None"

fun rest :: "scan_pc \<Rightarrow> punishment list" where
  "rest (AtLoop ms) = ms"
| "rest (AtCas m ms) = ms"
| "rest (AtResult b m ms) = ms"
| "rest (AtCalls cs m ms) = ms"
| "rest pc0 = []"

definition due :: "timestamp \<Rightarrow> punishment \<Rightarrow> bool" where
  "due now p = (case expiry_date p of None \<Rightarrow> False | Some expiry \<Rightarrow> expiry \<le> now)"

definition about :: "int \<Rightarrow> scan_event list \<Rightarrow> scan_event list" where
  "about pid tr = filter (\<lambda>ev. event_pid ev = pid) tr"

text \<open>What a step may do: it takes its punishments from its own list or from the store,
  turns to a punishment of its list only when that is due, deactivates only the punishment
  it is dealing with, and records events only about that one.\<close>

definition step_frame :: "timestamp \<Rightarrow> scan_pc \<Rightarrow> scan_world \<Rightarrow> scan_pc \<Rightarrow> scan_world \<Rightarrow> bool" where
  "step_frame now pc0 w pc' w' \<longleftrightarrow>
     set (rest pc') \<subseteq> set (rest pc0) \<union> set (punishments (store w))
     \<and> (\<forall>m. current pc' = Some m \<longrightarrow>
            current pc0 = Some m \<or> (m \<in> set (rest pc0) \<and> due now m))
     \<and> (store w' = store w
          \<or> (\<exists>m. current pc0 = Some m
                 \<and> store w' = snd (deactivate_punishment (p_id m) (store w))))
     \<and> (trace w' = trace w
          \<or> (\<exists>m ev. current pc0 = Some m \<and> event_pid ev = p_id m
                 \<and> trace w' = trace w @ [ev]))"

text \<open>\<open>untouched p\<close>: the punishment is in the store as it was, the trace does not
  mention it, no task is dealing with it, and the copies the tasks hold carry its expiry
  date.\<close>

definition untouched :: "punishment \<Rightarrow> scan_config \<Rightarrow> bool" where
  "untouched p cfg \<longleftrightarrow>
     (case cfg of (ts, w) \<Rightarrow>
        p \<in> set (punishments (store w))
      \<and> about (p_id p) (trace w) = []
      \<and> (\<forall>j m. current (pc (ts j)) = Some m \<longrightarrow> p_id m \<noteq> p_id p)
      \<and> (\<forall>j m. m \<in> set (rest (pc (ts j))) \<longrightarrow> p_id m = p_id p \<longrightarrow>
             expiry_date m = expiry_date p))"

text \<open>The punishments on which a task has still to call \<open>deactivate_punishment\<close>;
  a task is unstarted until it has read the active punishments.\<close>

fun todo :: "scan_pc \<Rightarrow> punishment list" where
  "todo (AtLoop ms) = ms"
| "todo (AtCas m ms) = m # ms"
| "todo (AtResult b m ms) = ms"
| "todo (AtCalls cs m ms) = ms"
| "todo pc0 = []"

fun unstarted :: "scan_pc \<Rightarrow> bool" where
  "unstarted AtStart = True"
| "unstarted AtFetch = True"
| "unstarted pc0 = False"

definition answered :: "nat \<Rightarrow> int \<Rightarrow> scan_event list \<Rightarrow> bool" where
  "answered i pid tr \<longleftrightarrow> Deactivated i pid True \<in> set tr \<or> Deactivated i pid False \<in> set tr"

text \<open>A step shortens the list of a started task by at most its head, or empties it, and
  gives a starting task a list without repeated ids; it adds at most one event to the
  trace, of its own task.\<close>

definition step_todo :: "scan_pc \<Rightarrow> scan_world \<Rightarrow> scan_pc \<Rightarrow> bool" where
  "step_todo pc0 w pc' \<longleftrightarrow>
     (if unstarted pc0
      then distinct (map p_id (punishments (store w))) \<longrightarrow> distinct (map p_id (todo pc'))
      else \<not> unstarted pc'
           \<and> (todo pc' = todo pc0 \<or> todo pc' = tl (todo pc0) \<or> todo pc' = []))"

definition step_trace :: "nat \<Rightarrow> scan_pc \<Rightarrow> scan_world \<Rightarrow> scan_pc \<Rightarrow> scan_world \<Rightarrow> bool" where
  "step_trace i pc0 w pc' w' \<longleftrightarrow>
     trace w' = trace w
     \<or> (\<exists>m ms b. pc0 = AtCas m ms \<and> pc' = AtResult b m ms
            \<and> trace w' = trace w @ [Deactivated i (p_id m) b])
     \<or> (\<exists>q c. trace w' = trace w @ [Called i q c])"

text \<open>\<open>asked_once\<close>: no task gets two answers about the same punishment id.\<close>

definition asked_once :: "scan_config \<Rightarrow> bool" where
  "asked_once cfg \<longleftrightarrow>
     (case cfg of (ts, w) \<Rightarrow>
        (\<forall>j. distinct (map p_id (todo (pc (ts j)))))
      \<and> (\<forall>j pid. answered j pid (trace w) \<longrightarrow>
             pid \<notin> p_id ` set (todo (pc (ts j))) \<and> \<not> unstarted (pc (ts j)))
      \<and> (\<forall>j pid. \<not> (Deactivated j pid True \<in> set (trace w)
                      \<and> Deactivated j pid False \<in> set (trace w))))"

text \<open>
  Chat 100 with a mute of user 20 that expired at second 60 and a ban of user 21 that
  expires at second 3600. Tasks 0 and 1 are two scans of the chat's mutes that overlap,
  task 2 is a scan of its bans; \<open>race\<close> interleaves them, step by step, between seconds
  70 and 72.
\<close>

definition due_mute :: punishment where
  "due_mute =
     \<lparr>p_id = 1, p_chat_id = 100, p_user_id = 20, p_moderator_id = 10,
      punishment_type = ''mute'', duration_seconds = Some 60,
      expiry_date = Some (seconds 60), active = True\<rparr>"

definition later_ban :: punishment where
  "later_ban =
     \<lparr>p_id = 2, p_chat_id = 100, p_user_id = 21, p_moderator_id = 10,
      punishment_type = ''ban'', duration_seconds = Some 3600,
      expiry_date = Some (seconds 3600), active = True\<rparr>"

definition scan_world0 :: scan_world where
  "scan_world0 =
     \<lparr>store = \<lparr>punishments = [due_mute, later_ban], last_punishment_id = 2\<rparr>,
      recently_processed = [], trace = []\<rparr>"

definition scan_tasks0 :: "nat \<Rightarrow> scan_task" where
  "scan_tasks0 i =
     \<lparr>kind = (if i = 2 then BanScan else MuteScan), task_chat = 100,
      current_time = seconds 70, pc = AtStart\<rparr>"

definition race :: "action list" where
  "race =
     [Run 0 (seconds 70) Accepted ''administrator'', Run 1 (seconds 70) Accepted ''creator'',
      Run 2 (seconds 70) Accepted [],
      Run 0 (seconds 70) Accepted [], Run 1 (seconds 70) Accepted [],
      Run 0 (seconds 70) Accepted [], Run 1 (seconds 70) Accepted [],
      Run 2 (seconds 70) Accepted [],
      Run 1 (seconds 70) Accepted [], Run 0 (seconds 70) Accepted [],
      Run 1 (seconds 71) Accepted [], Run 0 (seconds 71) Accepted [],
      Run 1 (seconds 71) Failed [], Run 1 (seconds 71) Accepted [],
      Run 0 (seconds 72) Accepted [], Run 1 (seconds 72) Accepted [],
      Run 1 (seconds 72) Accepted [], Run 2 (seconds 72) Accepted []]"

section \<open>Facts about the database operations and the handlers\<close>

lemma add_vote_active_votes: "active_votes (snd (add_vote now vid uid t db)) = active_votes db"
  by (simp add: add_vote_def split: option.splits)

lemma add_vote_history: "vote_history (snd (add_vote now vid uid t db)) = vote_history db"
  by (simp add: add_vote_def split: option.splits)

lemma add_vote_get_vote_by_id:
  "get_vote_by_id v (snd (add_vote now vid uid t db)) = get_vote_by_id v db"
  by (simp add: get_vote_by_id_def add_vote_active_votes)

lemma update_vote_message_votes: "votes (update_vote_message v r w) = votes w"
  by (simp add: update_vote_message_def call_api_def Let_def)

lemma update_vote_message_moderation: "moderation (update_vote_message v r w) = moderation w"
  by (simp add: update_vote_message_def call_api_def Let_def)

lemma update_vote_message_calls:
  "calls (update_vote_message v r w) = calls w
   \<or> calls (update_vote_message v r w)
        = calls w @ [EditMessage (chat_id v) (message_id v) (TextTally (fst r) (snd r))]"
  by (simp add: update_vote_message_def call_api_def Let_def)

lemma archive_vote_gone: "get_vote_by_id (vote_id v) (archive_vote now result rsn v db) = None"
  by (simp add: archive_vote_def get_vote_by_id_def Let_def find_None_iff)

lemma get_vote_by_id_vote_id: "get_vote_by_id vid db = Some v \<Longrightarrow> vote_id v = vid"
  by (auto simp: get_vote_by_id_def find_Some_iff)

lemma finish_vote_live:
  "get_vote_by_id vid db = Some v \<Longrightarrow>
   snd (finish_vote now vid result rsn db) = archive_vote now result rsn v db"
  by (simp add: finish_vote_def)

lemma archive_vote_history:
  "vote_history (archive_vote now result rsn v db) = vote_history db @
     [\<lparr>h_vote_id = vote_id v, h_chat_id = vote_id v, h_target_user_id = chat_id v,
       h_creator_id = target_user_id v, h_mute_duration = creator_id v,
       h_required_votes = mute_duration v, h_vote_duration = required_votes v,
       h_created_at = vote_duration v, h_finished_at = now, h_result = result,
       h_reason = rsn, h_votes_yes = fst (get_vote_results (vote_id v) db),
       h_votes_no = snd (get_vote_results (vote_id v) db)\<rparr>]"
  by (simp add: archive_vote_def Let_def)

lemma finish_votemute_votes:
  assumes "get_vote_by_id vid (votes w) = Some v"
  shows "votes (finish_votemute e t_hist t_mute vid result rsn w)
           = archive_vote t_hist result rsn v (votes w)"
  using assms
  by (simp add: finish_votemute_def finish_votemute_body_def finish_vote_def apply_vote_mute_def call_api_def Let_def)

lemma finish_votemute_success_calls:
  assumes "get_vote_by_id vid (votes w) = Some v"
  shows "vote_mute_call t_mute v \<in> set (calls (finish_votemute e t_hist t_mute vid ''success'' rsn w))"
  using assms
  by (simp add: finish_votemute_def finish_votemute_body_def finish_vote_def apply_vote_mute_def call_api_def Let_def
        vote_mute_call_def)

lemma finish_votemute_success_moderation:
  assumes "get_vote_by_id vid (votes w) = Some v"
  shows "moderation (finish_votemute e t_hist t_mute vid ''success'' rsn w)
           = (if api_ok e (vote_mute_call t_mute v)
              then snd (add_punishment (chat_id v) (target_user_id v) (bot_id e) ''mute''
                         (Some (mute_duration v)) (Some (t_mute + seconds (mute_duration v)))
                         (moderation w))
              else moderation w)"
  using assms
  by (simp add: finish_votemute_def finish_votemute_body_def finish_vote_def apply_vote_mute_def call_api_def Let_def
        vote_mute_call_def)

lemma finish_votemute_failed:
  assumes "get_vote_by_id vid (votes w) = Some v"
  shows "moderation (finish_votemute e t_hist t_mute vid ''failed'' rsn w) = moderation w"
    and "calls (finish_votemute e t_hist t_mute vid ''failed'' rsn w)
           = calls w @ (if is_pinned v then [UnpinMessage (chat_id v) (message_id v)] else [])
               @ [EditMessage (chat_id v) (message_id v) TextRejected]"
  using assms
  by (simp_all add: finish_votemute_def finish_votemute_body_def finish_vote_def call_api_def Let_def)

lemma find_filter_keep: "(\<And>x. P x \<Longrightarrow> Q x) \<Longrightarrow> find P (filter Q xs) = find P xs"
  by (induction xs) auto

lemma count_type_other:
  "x \<noteq> vid \<Longrightarrow> count_type t vid (filter (\<lambda>b. b_vote_id b \<noteq> x) bs) = count_type t vid bs"
  by (induction bs) (auto simp: count_type_def)

lemma archive_vote_other:
  "vid \<noteq> vote_id v \<Longrightarrow> get_vote_by_id vid (archive_vote now result rsn v db) = get_vote_by_id vid db"
proof -
  assume ne: "vid \<noteq> vote_id v"
  have "find (\<lambda>x. vote_id x = vid) (filter (\<lambda>x. vote_id x \<noteq> vote_id v) (active_votes db))
          = find (\<lambda>x. vote_id x = vid) (active_votes db)"
    by (rule find_filter_keep) (use ne in auto)
  then show ?thesis
    by (simp add: archive_vote_def get_vote_by_id_def Let_def)
qed

lemma expire_all_active:
  "active_votes (expire_all now vids db) = filter (\<lambda>v. vote_id v \<notin> set vids) (active_votes db)"
proof (induction vids arbitrary: db)
  case Nil
  then show ?case by simp
next
  case (Cons vid vids)
  show ?case
  proof (cases "get_vote_by_id vid db")
    case None
    then have "\<forall>v \<in> set (active_votes db). vote_id v \<noteq> vid"
      by (simp add: get_vote_by_id_def find_None_iff)
    then have "filter (\<lambda>v. vote_id v \<notin> set (vid # vids)) (active_votes db)
                 = filter (\<lambda>v. vote_id v \<notin> set vids) (active_votes db)"
      by (intro filter_cong) auto
    with None Cons.IH show ?thesis by simp
  next
    case (Some v)
    then have "vote_id v = vid" by (rule get_vote_by_id_vote_id)
    then have "active_votes (archive_vote now ''failed'' TimeExpired v db)
                 = filter (\<lambda>x. vote_id x \<noteq> vid) (active_votes db)"
      by (simp add: archive_vote_def Let_def)
    with Some Cons.IH show ?thesis
      by (simp add: conj_commute)
  qed
qed

lemma expire_all_history:
  "\<exists>rows. vote_history (expire_all now vids db) = vote_history db @ rows
          \<and> (\<forall>r \<in> set rows. h_result r = ''failed'' \<and> h_reason r = TimeExpired)"
proof (induction vids arbitrary: db)
  case Nil
  then show ?case by simp
next
  case (Cons vid vids)
  show ?case
  proof (cases "get_vote_by_id vid db")
    case None
    with Cons.IH [of db] show ?thesis by simp
  next
    case (Some v)
    let ?db = "archive_vote now ''failed'' TimeExpired v db"
    from Cons.IH [of ?db] obtain rows where
      rows: "vote_history (expire_all now vids ?db) = vote_history ?db @ rows"
            "\<forall>r \<in> set rows. h_result r = ''failed'' \<and> h_reason r = TimeExpired"
      by blast
    obtain r where r: "vote_history ?db = vote_history db @ [r]" "h_result r = ''failed''"
                      "h_reason r = TimeExpired"
      by (simp add: archive_vote_history)
    have "vote_history (expire_all now (vid # vids) db) = vote_history db @ (r # rows)"
      using Some rows(1) r(1) by simp
    moreover have "\<forall>x \<in> set (r # rows). h_result x = ''failed'' \<and> h_reason x = TimeExpired"
      using rows(2) r(2,3) by simp
    ultimately show ?thesis by blast
  qed
qed

lemma expire_all_rows:
  "\<exists>rows. vote_history (expire_all now vids db) = vote_history db @ rows
          \<and> (\<forall>r \<in> set rows. h_result r = ''failed'' \<and> h_reason r = TimeExpired)
          \<and> (\<forall>vid v. vid \<in> set vids \<and> get_vote_by_id vid db = Some v \<longrightarrow>
                (\<exists>r \<in> set rows. h_vote_id r = vid
                    \<and> h_votes_yes r = fst (get_vote_results vid db)
                    \<and> h_votes_no r = snd (get_vote_results vid db)))"
proof (induction vids arbitrary: db)
  case Nil
  then show ?case by simp
next
  case (Cons x vids)
  show ?case
  proof (cases "get_vote_by_id x db")
    case None
    from Cons.IH [of db] obtain rows where
      rows: "vote_history (expire_all now vids db) = vote_history db @ rows"
        "\<forall>r \<in> set rows. h_result r = ''failed'' \<and> h_reason r = TimeExpired"
        "\<And>vid v. vid \<in> set vids \<Longrightarrow> get_vote_by_id vid db = Some v \<Longrightarrow>
           \<exists>r \<in> set rows. h_vote_id r = vid
              \<and> h_votes_yes r = fst (get_vote_results vid db)
              \<and> h_votes_no r = snd (get_vote_results vid db)"
      by blast
    have "\<exists>r \<in> set rows. h_vote_id r = vid
              \<and> h_votes_yes r = fst (get_vote_results vid db)
              \<and> h_votes_no r = snd (get_vote_results vid db)"
      if "vid \<in> set (x # vids)" "get_vote_by_id vid db = Some v" for vid v
    proof -
      from that None have "vid \<in> set vids" by auto
      from rows(3) [OF this that(2)] show ?thesis .
    qed
    with rows(1,2) None show ?thesis
      by (intro exI [of _ rows]) auto
  next
    case (Some u)
    let ?db = "archive_vote now ''failed'' TimeExpired u db"
    have u: "vote_id u = x" using Some by (rule get_vote_by_id_vote_id)
    from Cons.IH [of ?db] obtain rows where
      rows: "vote_history (expire_all now vids ?db) = vote_history ?db @ rows"
        "\<forall>r \<in> set rows. h_result r = ''failed'' \<and> h_reason r = TimeExpired"
        "\<And>vid v. vid \<in> set vids \<Longrightarrow> get_vote_by_id vid ?db = Some v \<Longrightarrow>
           \<exists>r \<in> set rows. h_vote_id r = vid
              \<and> h_votes_yes r = fst (get_vote_results vid ?db)
              \<and> h_votes_no r = snd (get_vote_results vid ?db)"
      by blast
    obtain r0 where r0: "vote_history ?db = vote_history db @ [r0]" "h_result r0 = ''failed''"
        "h_reason r0 = TimeExpired" "h_vote_id r0 = x"
        "h_votes_yes r0 = fst (get_vote_results x db)"
        "h_votes_no r0 = snd (get_vote_results x db)"
      using u by (simp add: archive_vote_history)
    have hist: "vote_history (expire_all now (x # vids) db) = vote_history db @ (r0 # rows)"
      using Some rows(1) r0(1) by simp
    have all: "\<forall>r \<in> set (r0 # rows). h_result r = ''failed'' \<and> h_reason r = TimeExpired"
      using rows(2) r0(2,3) by simp
    have each: "\<exists>r \<in> set (r0 # rows). h_vote_id r = vid
              \<and> h_votes_yes r = fst (get_vote_results vid db)
              \<and> h_votes_no r = snd (get_vote_results vid db)"
      if "vid \<in> set (x # vids)" "get_vote_by_id vid db = Some v" for vid v
    proof (cases "vid = x")
      case True
      with r0(4,5,6) show ?thesis by simp
    next
      case False
      with that(1) have in_tl: "vid \<in> set vids" by simp
      have keep: "get_vote_by_id vid ?db = Some v"
        using False u that(2) by (simp add: archive_vote_other)
      have res: "get_vote_results vid ?db = get_vote_results vid db"
        using False u
        by (simp add: archive_vote_def Let_def get_vote_results_def count_type_other)
      from rows(3) [OF in_tl keep] res show ?thesis by auto
    qed
    from hist all each show ?thesis
      by (intro exI [of _ "r0 # rows"]) blast
  qed
qed

lemma cleanup_history:
  "\<exists>rows. vote_history (snd (cleanup_expired_votes now db)) = vote_history db @ rows
          \<and> (\<forall>r \<in> set rows. h_result r = ''failed'' \<and> h_reason r = TimeExpired)"
  using expire_all_history by (simp add: cleanup_expired_votes_def Let_def)

lemma cleanup_active:
  "\<forall>u \<in> set (active_votes (snd (cleanup_expired_votes now db))). now < expires_at u"
  by (auto simp: cleanup_expired_votes_def Let_def expire_all_active)

lemma cleanup_rows:
  assumes "get_vote_by_id vid db = Some v" and "expires_at v \<le> now"
  shows "\<exists>rows. vote_history (snd (cleanup_expired_votes now db)) = vote_history db @ rows
          \<and> (\<forall>r \<in> set rows. h_result r = ''failed'' \<and> h_reason r = TimeExpired)
          \<and> (\<exists>r \<in> set rows. h_vote_id r = vid
                \<and> h_votes_yes r = fst (get_vote_results vid db)
                \<and> h_votes_no r = snd (get_vote_results vid db))"
proof -
  let ?vids = "map vote_id (filter (\<lambda>v. expires_at v \<le> now) (active_votes db))"
  have "v \<in> set (active_votes db)" and "vote_id v = vid"
    using assms(1) by (auto simp: get_vote_by_id_def find_Some_iff)
  with assms(2) have mem: "vid \<in> set ?vids"
    by force
  from expire_all_rows [of now ?vids db] obtain rows where
    rows: "vote_history (expire_all now ?vids db) = vote_history db @ rows"
      "\<forall>r \<in> set rows. h_result r = ''failed'' \<and> h_reason r = TimeExpired"
      "\<forall>vid v. vid \<in> set ?vids \<and> get_vote_by_id vid db = Some v \<longrightarrow>
         (\<exists>r \<in> set rows. h_vote_id r = vid
            \<and> h_votes_yes r = fst (get_vote_results vid db)
            \<and> h_votes_no r = snd (get_vote_results vid db))"
    by blast
  from rows(3) mem assms(1)
  have "\<exists>r \<in> set rows. h_vote_id r = vid
            \<and> h_votes_yes r = fst (get_vote_results vid db)
            \<and> h_votes_no r = snd (get_vote_results vid db)"
    by blast
  with rows(1,2) show ?thesis
    by (simp add: cleanup_expired_votes_def Let_def)
qed

lemma cleanup_gone:
  assumes "get_vote_by_id vid db = Some v" and "expires_at v \<le> now"
  shows "get_vote_by_id vid (snd (cleanup_expired_votes now db)) = None"
proof -
  have "v \<in> set (active_votes db)" and "vote_id v = vid"
    using assms(1) by (auto simp: get_vote_by_id_def find_Some_iff)
  with assms(2)
  have "vid \<in> set (map vote_id (filter (\<lambda>v. expires_at v \<le> now) (active_votes db)))"
    by force
  then show ?thesis
    by (auto simp: get_vote_by_id_def find_None_iff cleanup_expired_votes_def Let_def
          expire_all_active)
qed

section \<open>Ballot cooldown\<close>

lemma find_ballot_map:
  assumes "find (ballot_of vid uid) bs = Some b"
  shows "find (ballot_of vid uid)
           (map (\<lambda>x. if ballot_of vid uid x then f x else x) bs) = Some (f b)
         \<or> \<not> ballot_of vid uid (f b)"
  using assms by (induction bs) (auto split: if_splits)

text \<open>
  C8. A voter who already has a ballot on the vote and tries to change it less than 30
  seconds after \<open>last_change_at\<close> gets \<open>False\<close>, and the database (so the stored ballot
  and the tally) is unchanged; at 30 seconds or later the change is accepted and the
  voter's stored ballot carries the new choice and the new \<open>last_change_at\<close>.
\<close>

theorem add_vote_cooldown:
  assumes "find (ballot_of vid uid) (vote_results db) = Some b"
  shows "(now - last_change_at b < seconds 30 \<longrightarrow>
            add_vote now vid uid vtype db = (False, db) \<and>
            get_vote_results vid (snd (add_vote now vid uid vtype db)) = get_vote_results vid db)
       \<and> (now - last_change_at b \<ge> seconds 30 \<longrightarrow>
            fst (add_vote now vid uid vtype db) \<and>
            find (ballot_of vid uid) (vote_results (snd (add_vote now vid uid vtype db)))
              = Some (b\<lparr>vote_type := vtype, voted_at := now, last_change_at := now\<rparr>))"
proof (intro conjI impI)
  assume early: "now - last_change_at b < seconds 30"
  from assms early show "add_vote now vid uid vtype db = (False, db)"
    by (simp add: add_vote_def)
  then show "get_vote_results vid (snd (add_vote now vid uid vtype db)) = get_vote_results vid db"
    by simp
next
  assume late: "seconds 30 \<le> now - last_change_at b"
  from assms late show "fst (add_vote now vid uid vtype db)"
    by (simp add: add_vote_def)
  have key: "ballot_of vid uid b"
    using assms by (auto simp: find_Some_iff)
  let ?f = "\<lambda>x. x\<lparr>vote_type := vtype, voted_at := now, last_change_at := now\<rparr>"
  have "ballot_of vid uid (?f b)"
    using key by (simp add: ballot_of_def)
  with find_ballot_map [OF assms, of ?f]
  have "find (ballot_of vid uid)
          (map (\<lambda>x. if ballot_of vid uid x then ?f x else x) (vote_results db)) = Some (?f b)"
    by blast
  with assms late
  show "find (ballot_of vid uid) (vote_results (snd (add_vote now vid uid vtype db)))
          = Some (?f b)"
    by (simp add: add_vote_def)
qed

theorem add_vote_cooldown_witness:
  "add_vote (seconds 29) 1 7 ''no'' cooldown_db = (False, cooldown_db)
   \<and> get_vote_results 1 (snd (add_vote (seconds 29) 1 7 ''no'' cooldown_db)) = (1, 0)
   \<and> fst (add_vote (seconds 30) 1 7 ''no'' cooldown_db)
   \<and> find (ballot_of 1 7) (vote_results (snd (add_vote (seconds 30) 1 7 ''no'' cooldown_db)))
       = Some \<lparr>b_vote_id = 1, b_user_id = 7, vote_type = ''no'',
               voted_at = seconds 30, last_change_at = seconds 30\<rparr>"
proof -
  have b: "find (ballot_of 1 7) (vote_results cooldown_db)
             = Some \<lparr>b_vote_id = 1, b_user_id = 7, vote_type = ''yes'',
                     voted_at = 0, last_change_at = 0\<rparr>"
    by (simp add: cooldown_db_def ballot_of_def)
  have tally: "get_vote_results 1 cooldown_db = (1, 0)"
    by (simp add: cooldown_db_def get_vote_results_def count_type_def)
  show ?thesis
    using add_vote_cooldown [OF b, of "seconds 29" "''no''"]
          add_vote_cooldown [OF b, of "seconds 30" "''no''"] tally
    by (simp add: seconds_def)
qed

section \<open>Ineligible voters\<close>

text \<open>
  C9. A ballot sent by the vote's creator, by its target, or by a member whose effective
  rank is not the baseline rank (every rank above it is different from it) is not recorded:
  the handler answers and returns, and the vote database, so the stored ballots and the
  tally, is unchanged.
\<close>

theorem ineligible_voter_rejected:
  assumes "get_vote_by_id vid (votes w) = Some v"
    and "user = creator_id v \<or> user = target_user_id v
         \<or> get_effective_rank e (chat_id v) user \<noteq> RANK_USER"
  shows "votes (vote_callback_handler e t_check t_vote t_hist t_mute user vtype vid w) = votes w
       \<and> get_vote_results vid
           (votes (vote_callback_handler e t_check t_vote t_hist t_mute user vtype vid w))
         = get_vote_results vid (votes w)
       \<and> moderation (vote_callback_handler e t_check t_vote t_hist t_mute user vtype vid w)
         = moderation w
       \<and> (\<exists>a. a \<in> {AnsFinished, AnsCreator, AnsTarget, AnsModerator} \<and>
              calls (vote_callback_handler e t_check t_vote t_hist t_mute user vtype vid w)
                = calls w @ [AnswerCallback a])"
  using assms by (auto simp: vote_callback_handler_def call_api_def)

theorem ineligible_voter_rejected_witness:
  "get_effective_rank demo_env 100 40 = 3
   \<and> votes (vote_callback_handler demo_env (minutes 2) (minutes 2) (minutes 2) (minutes 2)
        40 ''yes'' 1 tie_world) = votes tie_world
   \<and> get_vote_results 1 (votes (vote_callback_handler demo_env (minutes 2) (minutes 2)
        (minutes 2) (minutes 2) 40 ''yes'' 1 tie_world)) = (2, 2)"
proof -
  have live: "get_vote_by_id 1 (votes tie_world) = Some demo_vote"
    by (simp add: tie_world_def get_vote_by_id_def demo_vote_def)
  have rank: "get_effective_rank demo_env 100 40 = 3"
    by (simp add: get_effective_rank_def demo_env_def)
  then have elevated: "40 = creator_id demo_vote \<or> 40 = target_user_id demo_vote
       \<or> get_effective_rank demo_env (chat_id demo_vote) 40 \<noteq> RANK_USER"
    by (simp add: demo_vote_def RANK_USER_def)
  have tally: "get_vote_results 1 (votes tie_world) = (2, 2)"
    by (simp add: tie_world_def get_vote_results_def count_type_def cast_def)
  show ?thesis
    using ineligible_voter_rejected [OF live elevated, of "minutes 2" "minutes 2" "minutes 2"
            "minutes 2" "''yes''"] rank tally
    by simp
qed

section \<open>Ballots at the deadline\<close>

text \<open>
  C10, as stated, ends with "no ballot is ever accepted after the voting window has
  elapsed". The handler tests the deadline once, against its own clock reading, and then
  suspends (the sender's rank is looked up) before \<open>add_vote\<close>, which reads the clock
  again and has no deadline test. A ballot checked one microsecond before the deadline and
  written 0.2 seconds after it is stored and counted; with two ballots for and two against
  it brings the tally to the threshold and the mute is applied.
\<close>

theorem late_ballot_accepted:
  "minutes 5 - 1 < expires_at demo_vote
   \<and> expires_at demo_vote < minutes 5 + 200000
   \<and> get_vote_results 1 (votes majority_world) = (3, 0)
   \<and> get_vote_results 1 (votes (vote_callback_handler demo_env (minutes 5 - 1)
        (minutes 5 + 200000) (minutes 5 + 200000) (minutes 5 + 200000) 35 ''no'' 1
        majority_world)) = (3, 1)
   \<and> map voted_at (filter (ballot_of 1 35) (vote_results (votes (vote_callback_handler demo_env
        (minutes 5 - 1) (minutes 5 + 200000) (minutes 5 + 200000) (minutes 5 + 200000) 35 ''no'' 1
        majority_world)))) = [minutes 5 + 200000]
   \<and> map h_result (vote_history (votes (vote_callback_handler demo_env (minutes 5 - 1)
        (minutes 5 + 200000) (minutes 5 + 200000) (minutes 5 + 200000) 35 ''yes'' 1
        tie_world))) = [''success'']
   \<and> map h_votes_yes (vote_history (votes (vote_callback_handler demo_env (minutes 5 - 1)
        (minutes 5 + 200000) (minutes 5 + 200000) (minutes 5 + 200000) 35 ''yes'' 1
        tie_world))) = [3]
   \<and> map p_user_id (punishments (moderation (vote_callback_handler demo_env (minutes 5 - 1)
        (minutes 5 + 200000) (minutes 5 + 200000) (minutes 5 + 200000) 35 ''yes'' 1
        tie_world))) = [20]"
  by code_simp

text \<open>
  C10, amended. When the deadline of the vote has passed at the handler's deadline check
  (the clock reading it compares with \<open>expires_at\<close>), the handler only answers that the
  vote is finished: it returns without calling \<open>add_vote\<close>, so the vote database, and with
  it the stored ballots and the tally, is unchanged, although the expired vote is still in
  \<open>active_votes\<close>.
\<close>

theorem expired_ballot_rejected:
  assumes "get_vote_by_id vid (votes w) = Some v" and "expires_at v \<le> t_check"
  shows "vote_callback_handler e t_check t_vote t_hist t_mute user vtype vid w
           = w\<lparr>calls := calls w @ [AnswerCallback AnsFinished]\<rparr>
       \<and> votes (vote_callback_handler e t_check t_vote t_hist t_mute user vtype vid w) = votes w
       \<and> get_vote_results vid
           (votes (vote_callback_handler e t_check t_vote t_hist t_mute user vtype vid w))
         = get_vote_results vid (votes w)"
  using assms by (simp add: vote_callback_handler_def call_api_def)

theorem expired_ballot_rejected_witness:
  "vote_callback_handler demo_env (minutes 5) (minutes 5) (minutes 5) (minutes 5) 35 ''yes'' 1
       tie_world
     = tie_world\<lparr>calls := [AnswerCallback AnsFinished]\<rparr>
   \<and> get_vote_results 1 (votes (vote_callback_handler demo_env (minutes 5) (minutes 5)
        (minutes 5) (minutes 5) 35 ''yes'' 1 tie_world)) = (2, 2)"
proof -
  have live: "get_vote_by_id 1 (votes tie_world) = Some demo_vote"
    by (simp add: tie_world_def get_vote_by_id_def demo_vote_def)
  have late: "expires_at demo_vote \<le> minutes 5"
    by (simp add: demo_vote_def)
  have tally: "get_vote_results 1 (votes tie_world) = (2, 2)"
    by (simp add: tie_world_def get_vote_results_def count_type_def cast_def)
  show ?thesis
    using expired_ballot_rejected [OF live late, of demo_env "minutes 5" "minutes 5" "minutes 5"
            35 "''yes''"] tally
    by (simp add: tie_world_def)
qed

section \<open>Resolution at the threshold\<close>

text \<open>
  C4. When an accepted ballot on a live vote brings the tally to at least the required
  number of ballots, the handler resolves the vote at once: the vote leaves
  \<open>active_votes\<close> and a history row with the tally is written, with result \<open>success\<close>
  exactly when there are more ballots for than against and \<open>failed\<close> otherwise, ties
  included. For \<open>success\<close> the target is restricted for the vote's mute duration and,
  when the platform accepts the call, the mute is stored with that duration; otherwise no
  restriction is requested and no punishment stored.
\<close>

theorem threshold_resolution:
  assumes live: "get_vote_by_id vid (votes w) = Some v"
    and open_: "t_check < expires_at v"
    and eligible: "user \<noteq> creator_id v" "user \<noteq> target_user_id v"
                  "get_effective_rank e (chat_id v) user = RANK_USER"
    and accepted: "fst (add_vote t_vote vid user vtype (votes w))"
    and tally: "get_vote_results vid (snd (add_vote t_vote vid user vtype (votes w))) = (yes, no)"
    and reached: "required_votes v \<le> int (yes + no)"
    and w': "w' = vote_callback_handler e t_check t_vote t_hist t_mute user vtype vid w"
  shows "get_vote_by_id vid (votes w') = None
       \<and> (\<exists>r. vote_history (votes w') = vote_history (votes w) @ [r]
              \<and> h_vote_id r = vid \<and> h_votes_yes r = yes \<and> h_votes_no r = no
              \<and> h_result r = (if yes > no then ''success'' else ''failed''))
       \<and> (yes > no \<longrightarrow>
            vote_mute_call t_mute v \<in> set (calls w')
            \<and> (api_ok e (vote_mute_call t_mute v) \<longrightarrow>
                 punishments (moderation w') = punishments (moderation w) @
                   [\<lparr>p_id = last_punishment_id (moderation w) + 1, p_chat_id = chat_id v,
                     p_user_id = target_user_id v, p_moderator_id = bot_id e,
                     punishment_type = ''mute'', duration_seconds = Some (mute_duration v),
                     expiry_date = Some (t_mute + seconds (mute_duration v)),
                     active = True\<rparr>]))
       \<and> (\<not> yes > no \<longrightarrow>
            moderation w' = moderation w \<and> filter is_restrict (calls w') = filter is_restrict (calls w))"
proof -
  let ?db1 = "snd (add_vote t_vote vid user vtype (votes w))"
  let ?w1 = "w\<lparr>votes := ?db1\<rparr>"
  let ?w2 = "update_vote_message v (yes, no) ?w1"
  let ?res = "if yes > no then ''success'' else ''failed''"
  let ?rsn = "if yes > no then MajorityFor else MajorityAgainst"
  let ?w3 = "finish_votemute e t_hist t_mute vid ?res ?rsn ?w2"
  have vid: "vote_id v = vid"
    using live by (rule get_vote_by_id_vote_id)
  have w'_eq: "w' = call_api (AnswerCallback (AnsCounted vtype)) ?w3"
    using live open_ eligible accepted tally reached
    by (simp add: w' vote_callback_handler_def Let_def)
  have live2: "get_vote_by_id vid (votes ?w2) = Some v"
    using live by (simp add: update_vote_message_votes add_vote_get_vote_by_id)
  have votes3: "votes ?w3 = archive_vote t_hist ?res ?rsn v ?db1"
    using finish_votemute_votes [OF live2] by (simp add: update_vote_message_votes)
  have votes': "votes w' = votes ?w3"
    by (simp add: w'_eq call_api_def)
  have gone: "get_vote_by_id vid (votes w') = None"
    using archive_vote_gone [of v] by (simp add: votes' votes3 vid)
  have hist: "\<exists>r. vote_history (votes w') = vote_history (votes w) @ [r]
              \<and> h_vote_id r = vid \<and> h_votes_yes r = yes \<and> h_votes_no r = no
              \<and> h_result r = ?res"
    using tally by (simp add: votes' votes3 archive_vote_history add_vote_history vid)
  have mod2: "moderation ?w2 = moderation w"
    by (simp add: update_vote_message_moderation)
  have yes_case: "vote_mute_call t_mute v \<in> set (calls w')
            \<and> (api_ok e (vote_mute_call t_mute v) \<longrightarrow>
                 punishments (moderation w') = punishments (moderation w) @
                   [\<lparr>p_id = last_punishment_id (moderation w) + 1, p_chat_id = chat_id v,
                     p_user_id = target_user_id v, p_moderator_id = bot_id e,
                     punishment_type = ''mute'', duration_seconds = Some (mute_duration v),
                     expiry_date = Some (t_mute + seconds (mute_duration v)),
                     active = True\<rparr>])" if "yes > no"
  proof -
    from that have w3: "?w3 = finish_votemute e t_hist t_mute vid ''success'' MajorityFor ?w2"
      by simp
    have "vote_mute_call t_mute v \<in> set (calls ?w3)"
      unfolding w3 by (rule finish_votemute_success_calls [OF live2])
    moreover have "moderation w' = moderation ?w3"
      by (simp add: w'_eq call_api_def)
    moreover have "calls w' = calls ?w3 @ [AnswerCallback (AnsCounted vtype)]"
      by (simp add: w'_eq call_api_def)
    ultimately show ?thesis
      using finish_votemute_success_moderation [OF live2, of e t_hist t_mute MajorityFor] that mod2
      by (simp add: add_punishment_def Let_def)
  qed
  have no_case: "moderation w' = moderation w
       \<and> filter is_restrict (calls w') = filter is_restrict (calls w)" if "\<not> yes > no"
  proof -
    from that have w3: "?w3 = finish_votemute e t_hist t_mute vid ''failed'' MajorityAgainst ?w2"
      by simp
    have m: "moderation w' = moderation w"
      using finish_votemute_failed(1) [OF live2] mod2 by (simp add: w'_eq w3 call_api_def)
    have c2: "filter is_restrict (calls ?w2) = filter is_restrict (calls w)"
      using update_vote_message_calls [of v "(yes, no)" ?w1] by (auto simp: is_restrict_def)
    have "filter is_restrict (calls w') = filter is_restrict (calls ?w2)"
      using finish_votemute_failed(2) [OF live2]
      by (simp add: w'_eq w3 call_api_def is_restrict_def)
    with m c2 show ?thesis by simp
  qed
  from gone hist yes_case no_case show ?thesis by blast
qed

theorem threshold_resolution_witness:
  "get_vote_results 1 (snd (add_vote (minutes 2) 1 35 ''yes'' (votes tie_world))) = (3, 2)
   \<and> get_vote_by_id 1 (votes (vote_callback_handler demo_env (minutes 2) (minutes 2)
        (minutes 2) (minutes 2) 35 ''yes'' 1 tie_world)) = None
   \<and> map h_result (vote_history (votes (vote_callback_handler demo_env (minutes 2) (minutes 2)
        (minutes 2) (minutes 2) 35 ''yes'' 1 tie_world))) = [''success'']
   \<and> RestrictMute 100 20 (minutes 32) \<in> set (calls (vote_callback_handler demo_env (minutes 2)
        (minutes 2) (minutes 2) (minutes 2) 35 ''yes'' 1 tie_world))
   \<and> map duration_seconds (punishments (moderation (vote_callback_handler demo_env (minutes 2)
        (minutes 2) (minutes 2) (minutes 2) 35 ''yes'' 1 tie_world))) = [Some 1800]"
proof -
  let ?w' = "vote_callback_handler demo_env (minutes 2) (minutes 2) (minutes 2) (minutes 2)
               35 ''yes'' 1 tie_world"
  have live: "get_vote_by_id 1 (votes tie_world) = Some demo_vote"
    by (simp add: tie_world_def get_vote_by_id_def demo_vote_def)
  have open_: "minutes 2 < expires_at demo_vote"
    by (simp add: demo_vote_def minutes_def)
  have e1: "35 \<noteq> creator_id demo_vote" and e2: "35 \<noteq> target_user_id demo_vote"
    by (simp_all add: demo_vote_def)
  have e3: "get_effective_rank demo_env (chat_id demo_vote) 35 = RANK_USER"
    by (simp add: get_effective_rank_def demo_env_def RANK_USER_def)
  have acc: "fst (add_vote (minutes 2) 1 35 ''yes'' (votes tie_world))"
    by (simp add: add_vote_def tie_world_def cast_def ballot_of_def)
  have tally: "get_vote_results 1 (snd (add_vote (minutes 2) 1 35 ''yes'' (votes tie_world)))
                 = (3, 2)"
    by (simp add: add_vote_def tie_world_def cast_def ballot_of_def get_vote_results_def
          count_type_def)
  have reached: "required_votes demo_vote \<le> int (3 + 2)"
    by (simp add: demo_vote_def)
  have ok: "api_ok demo_env (vote_mute_call (minutes 2) demo_vote)"
    by (simp add: demo_env_def)
  have call: "vote_mute_call (minutes 2) demo_vote = RestrictMute 100 20 (minutes 32)"
    by (simp add: vote_mute_call_def demo_vote_def minutes_def seconds_def)
  have none: "punishments (moderation tie_world) = []"
    by (simp add: tie_world_def no_punishments_def)
  have hist: "vote_history (votes tie_world) = []"
    by (simp add: tie_world_def)
  from threshold_resolution [OF live open_ e1 e2 e3 acc tally reached refl,
         of "minutes 2" "minutes 2"] ok call none hist tally
  show ?thesis by (auto simp: demo_vote_def)
qed

section \<open>Resolution at the deadline\<close>

text \<open>
  C5, as stated, with the rule extended to every mechanism that finalizes an expired vote:
  the periodic sweep \<open>cleanup_expired_votes\<close> finalizes a vote whose only ballot is a
  ballot for as \<open>failed\<close>.
\<close>

theorem cleanup_ignores_majority:
  "get_vote_results 1 expired_db = (1, 0)
   \<and> map expires_at (active_votes expired_db) = [minutes 5]
   \<and> map h_result (vote_history (snd (cleanup_expired_votes (minutes 5) expired_db))) = [''failed'']
   \<and> map h_votes_yes (vote_history (snd (cleanup_expired_votes (minutes 5) expired_db))) = [1]
   \<and> map h_votes_no (vote_history (snd (cleanup_expired_votes (minutes 5) expired_db))) = [0]"
  by (simp add: expired_db_def demo_vote_def cast_def cleanup_expired_votes_def
        get_vote_by_id_def archive_vote_def get_vote_results_def count_type_def Let_def)

text \<open>
  C5, amended. When the vote is still in \<open>active_votes\<close> as its timer wakes, the timer
  resolves it by the majority rule on the tally of that moment: \<open>success\<close>, with the mute
  applied, exactly when there are more ballots for than against, and \<open>failed\<close> otherwise,
  ties included. A round of the periodic sweep removes every vote whose deadline has
  passed from \<open>active_votes\<close> and appends history rows that all carry the result
  \<open>failed\<close> and the reason "time expired", whatever the tally, one of them for the vote
  with its tally; the sweep makes no platform call and leaves the punishment store as it
  is, so it applies no mute.
\<close>

theorem deadline_resolution:
  assumes live: "get_vote_by_id vid (votes w) = Some v"
    and tally: "get_vote_results vid (votes w) = (yes, no)"
    and w': "w' = votemute_timer e t_hist t_mute vid w"
    and swept: "get_vote_by_id vid' (votes ws) = Some v'" "expires_at v' \<le> now"
    and ws': "ws' = cleanup_expired_votes_task now ws"
  shows "get_vote_by_id vid (votes w') = None
       \<and> (\<exists>r. vote_history (votes w') = vote_history (votes w) @ [r]
              \<and> h_vote_id r = vid \<and> h_votes_yes r = yes \<and> h_votes_no r = no
              \<and> h_result r = (if yes > no then ''success'' else ''failed''))
       \<and> (yes > no \<longrightarrow>
            vote_mute_call t_mute v \<in> set (calls w')
            \<and> (api_ok e (vote_mute_call t_mute v) \<longrightarrow>
                 punishments (moderation w') = punishments (moderation w) @
                   [\<lparr>p_id = last_punishment_id (moderation w) + 1, p_chat_id = chat_id v,
                     p_user_id = target_user_id v, p_moderator_id = bot_id e,
                     punishment_type = ''mute'', duration_seconds = Some (mute_duration v),
                     expiry_date = Some (t_mute + seconds (mute_duration v)),
                     active = True\<rparr>]))
       \<and> (\<not> yes > no \<longrightarrow>
            moderation w' = moderation w
            \<and> filter is_restrict (calls w') = filter is_restrict (calls w))
       \<and> get_vote_by_id vid' (votes ws') = None
       \<and> (\<forall>u \<in> set (active_votes (votes ws')). now < expires_at u)
       \<and> (\<exists>rows. vote_history (votes ws') = vote_history (votes ws) @ rows
              \<and> (\<forall>r \<in> set rows. h_result r = ''failed'' \<and> h_reason r = TimeExpired)
              \<and> (\<exists>r \<in> set rows. h_vote_id r = vid'
                    \<and> h_votes_yes r = fst (get_vote_results vid' (votes ws))
                    \<and> h_votes_no r = snd (get_vote_results vid' (votes ws))))
       \<and> moderation ws' = moderation ws
       \<and> calls ws' = calls ws"
proof -
  let ?res = "if yes > no then ''success'' else ''failed''"
  let ?rsn = "if yes > no then TimeoutMajorityFor else TimeoutMajorityAgainst"
  have vid: "vote_id v = vid"
    using live by (rule get_vote_by_id_vote_id)
  have w'_eq: "w' = finish_votemute e t_hist t_mute vid ?res ?rsn w"
    using live tally by (simp add: w' votemute_timer_def Let_def)
  have votes': "votes w' = archive_vote t_hist ?res ?rsn v (votes w)"
    unfolding w'_eq by (rule finish_votemute_votes [OF live])
  have gone: "get_vote_by_id vid (votes w') = None"
    using archive_vote_gone [of v] by (simp add: votes' vid)
  have hist: "\<exists>r. vote_history (votes w') = vote_history (votes w) @ [r]
              \<and> h_vote_id r = vid \<and> h_votes_yes r = yes \<and> h_votes_no r = no
              \<and> h_result r = ?res"
    using tally by (simp add: votes' archive_vote_history vid)
  have yes_case: "vote_mute_call t_mute v \<in> set (calls w')
            \<and> (api_ok e (vote_mute_call t_mute v) \<longrightarrow>
                 punishments (moderation w') = punishments (moderation w) @
                   [\<lparr>p_id = last_punishment_id (moderation w) + 1, p_chat_id = chat_id v,
                     p_user_id = target_user_id v, p_moderator_id = bot_id e,
                     punishment_type = ''mute'', duration_seconds = Some (mute_duration v),
                     expiry_date = Some (t_mute + seconds (mute_duration v)),
                     active = True\<rparr>])" if "yes > no"
    using that finish_votemute_success_calls [OF live, of t_mute e t_hist TimeoutMajorityFor]
      finish_votemute_success_moderation [OF live, of e t_hist t_mute TimeoutMajorityFor]
    by (simp add: w'_eq add_punishment_def Let_def)
  have no_case: "moderation w' = moderation w
       \<and> filter is_restrict (calls w') = filter is_restrict (calls w)" if "\<not> yes > no"
    using that finish_votemute_failed [OF live, of e t_hist t_mute TimeoutMajorityAgainst]
    by (simp add: w'_eq is_restrict_def)
  have votes_ws': "votes ws' = snd (cleanup_expired_votes now (votes ws))"
    and same: "moderation ws' = moderation ws" "calls ws' = calls ws"
    by (simp_all add: ws' cleanup_expired_votes_task_def)
  have swept_gone: "get_vote_by_id vid' (votes ws') = None"
    unfolding votes_ws' using swept by (rule cleanup_gone)
  have swept_all: "\<forall>u \<in> set (active_votes (votes ws')). now < expires_at u"
    unfolding votes_ws' by (rule cleanup_active)
  have swept_rows: "\<exists>rows. vote_history (votes ws') = vote_history (votes ws) @ rows
              \<and> (\<forall>r \<in> set rows. h_result r = ''failed'' \<and> h_reason r = TimeExpired)
              \<and> (\<exists>r \<in> set rows. h_vote_id r = vid'
                    \<and> h_votes_yes r = fst (get_vote_results vid' (votes ws))
                    \<and> h_votes_no r = snd (get_vote_results vid' (votes ws)))"
    unfolding votes_ws' using swept by (rule cleanup_rows)
  from gone hist yes_case no_case swept_gone swept_all swept_rows same show ?thesis
    by (intro conjI) blast+
qed

theorem deadline_resolution_witness:
  "get_vote_results 1 (votes tie_world) = (2, 2)
   \<and> get_vote_by_id 1 (votes (votemute_timer demo_env (minutes 5) (minutes 5) 1 tie_world)) = None
   \<and> map h_result (vote_history (votes (votemute_timer demo_env (minutes 5) (minutes 5) 1
        tie_world))) = [''failed'']
   \<and> moderation (votemute_timer demo_env (minutes 5) (minutes 5) 1 tie_world) = no_punishments
   \<and> get_vote_by_id 1 (votes (cleanup_expired_votes_task (minutes 5) majority_world)) = None
   \<and> map h_reason (vote_history (votes (cleanup_expired_votes_task (minutes 5) majority_world)))
       = [TimeExpired]
   \<and> moderation (cleanup_expired_votes_task (minutes 5) majority_world) = no_punishments
   \<and> calls (cleanup_expired_votes_task (minutes 5) majority_world) = []"
proof -
  have live: "get_vote_by_id 1 (votes tie_world) = Some demo_vote"
    by (simp add: tie_world_def get_vote_by_id_def demo_vote_def)
  have tally: "get_vote_results 1 (votes tie_world) = (2, 2)"
    by (simp add: tie_world_def get_vote_results_def count_type_def cast_def)
  have swept: "get_vote_by_id 1 (votes majority_world) = Some demo_vote"
    by (simp add: majority_world_def get_vote_by_id_def demo_vote_def)
  have late: "expires_at demo_vote \<le> minutes 5"
    by (simp add: demo_vote_def)
  have hist: "vote_history (votes tie_world) = []" "moderation tie_world = no_punishments"
    by (simp_all add: tie_world_def)
  have before: "moderation majority_world = no_punishments" "calls majority_world = []"
    by (simp_all add: majority_world_def)
  have reasons: "map h_reason (vote_history (votes (cleanup_expired_votes_task (minutes 5)
                   majority_world))) = [TimeExpired]"
    by code_simp
  from deadline_resolution [OF live tally refl swept late refl,
         of demo_env "minutes 5" "minutes 5"] tally hist before reasons
  show ?thesis by auto
qed

section \<open>Reissued mutes\<close>

text \<open>\<open>mute_command\<close> overwrites: when it passes its checks and the platform
  accepts the restriction, the mute it stored is the only active mute of the target in the
  chat.\<close>

lemma retire_retire: "retire S (retire T p) = retire (S \<union> T) p"
  by (simp add: retire_def)

lemma deactivate_punishment_retire:
  "snd (deactivate_punishment pid db) = db\<lparr>punishments := map (retire {pid}) (punishments db)\<rparr>"
  by (simp add: deactivate_punishment_def retire_def)

lemma deactivate_user_mutes_retire:
  "deactivate_user_mutes target ms db
     = db\<lparr>punishments :=
          map (retire (p_id ` {m \<in> set ms. p_user_id m = target})) (punishments db)\<rparr>"
proof (induction ms arbitrary: db)
  case Nil
  have "map (retire {}) (punishments db) = punishments db"
    by (induction "punishments db") (simp_all add: retire_def map_idI)
  then show ?case by simp
next
  case (Cons m ms)
  show ?case
  proof (cases "p_user_id m = target")
    case True
    have "p_id ` {x \<in> set (m # ms). p_user_id x = target}
            = p_id ` {x \<in> set ms. p_user_id x = target} \<union> {p_id m}"
      using True by auto
    with True show ?thesis
      by (simp add: Cons.IH deactivate_punishment_retire retire_retire o_def)
  next
    case False
    then have "{x \<in> set (m # ms). p_user_id x = target} = {x \<in> set ms. p_user_id x = target}"
      by auto
    with False show ?thesis by (simp add: Cons.IH)
  qed
qed

lemma apply_mute_overwrites:
  assumes "api_ok e (RestrictMute chat target (now + seconds duration))"
  shows "active_mutes_of chat target (moderation (apply_mute e now chat user target duration w))
           = [\<lparr>p_id = last_punishment_id (moderation w) + 1, p_chat_id = chat,
               p_user_id = target, p_moderator_id = user, punishment_type = ''mute'',
               duration_seconds = Some duration, expiry_date = Some (now + seconds duration),
               active = True\<rparr>]"
proof -
  let ?ms = "get_active_punishments chat ''mute'' (moderation w)"
  let ?S = "p_id ` {m \<in> set ?ms. p_user_id m = target}"
  have "filter (\<lambda>p. p_user_id p = target)
          (filter (\<lambda>p. p_chat_id p = chat \<and> punishment_type p = ''mute'' \<and> active p)
             (map (retire ?S) (punishments (moderation w)))) = []"
    by (auto simp: filter_empty_conv retire_def get_active_punishments_def split: if_splits)
  then show ?thesis
    using assms
    by (simp add: apply_mute_def Let_def call_api_def deactivate_user_mutes_retire
          add_punishment_def active_mutes_of_def get_active_punishments_def)
qed

lemma mute_command_overwrites:
  assumes "mute_checks e rq = None" and "q_target rq = Some target"
    and "q_duration rq = Some duration"
    and "api_ok e (RestrictMute (q_chat rq) target (now + seconds duration))"
  shows "map p_id (active_mutes_of (q_chat rq) target (moderation (mute_command e now rq w)))
           = [last_punishment_id (moderation w) + 1]"
  using assms apply_mute_overwrites [OF assms(4), of "q_sender rq" w]
  by (simp add: mute_command_def)

text \<open>
  C6 fails on the vote path. The target of the vote holds an active mute (punishment 1)
  when the vote's timer resolves it as \<open>success\<close>: \<open>finish_votemute\<close> stores the new
  mute without deactivating the old one, and two active mutes of the same member in the
  same chat are visible. The moderator's \<open>/mute\<close> in the same world passes the checks of
  \<open>mute_command\<close> and leaves one active mute, the new one; the same command from a
  member of the baseline rank is refused and leaves the old one.
\<close>

theorem vote_mute_stacks:
  "map p_id (active_mutes_of 100 20 (moderation muted_world)) = [1]
   \<and> map p_id (active_mutes_of 100 20
        (moderation (votemute_timer demo_env (minutes 5) (minutes 5) 1 muted_world))) = [1, 2]
   \<and> mute_checks demo_env moderator_mute = None
   \<and> map p_id (active_mutes_of 100 20
        (moderation (mute_command demo_env (minutes 5) moderator_mute muted_world))) = [2]
   \<and> mute_checks demo_env member_mute = Some TextNoPermission
   \<and> map p_id (active_mutes_of 100 20
        (moderation (mute_command demo_env (minutes 5) member_mute muted_world))) = [1]"
  by code_simp

section \<open>One live vote per chat\<close>

text \<open>
  C7 fails on both creation paths. Two \<open>/votemute\<close> commands whose checks both run
  before either creates its vote (the function suspends between its checks and
  \<open>create_vote\<close>) both pass the checks and both create a vote: two votes are live in
  the chat. Run one after the other, the second command is refused. And the callback
  \<open>votemute_start\<close> creates a vote without looking for a live one: with complete
  settings in the conversation state, a second live vote appears in a chat whose vote 1
  is live.
\<close>

theorem second_live_vote:
  "map vote_id (live_votes (minutes 1) 100 (votes tie_world)) = [1]
   \<and> map vote_id (live_votes (minutes 1) 100 (votes
        (create_votemute_vote demo_env (minutes 1) (minutes 1) 100 11 (Some panel) 501
           tie_world))) = [1, 2]
   \<and> votemute_checks demo_env (seconds 1) (seconds 1) request_a empty_world = None
   \<and> votemute_checks demo_env (seconds 2) (seconds 2) request_b empty_world = None
   \<and> map vote_id (live_votes (minutes 1) 100 (votes
        (votemute_create demo_env (seconds 4) (seconds 4) request_b 21 501
          (votemute_create demo_env (seconds 3) (seconds 3) request_a 20 500 empty_world))))
      = [1, 2]
   \<and> map vote_id (live_votes (minutes 1) 100 (votes
        (votemute_command demo_env (seconds 2) (seconds 2) (seconds 4) (seconds 4) request_b 501
          (votemute_command demo_env (seconds 1) (seconds 1) (seconds 3) (seconds 3) request_a 500
             empty_world)))) = [1]"
  by code_simp

section \<open>Resolving a vote once\<close>

text \<open>
  C2 fails when two triggers overlap. \<open>finish_votemute\<close> looks the vote up, suspends, and
  then archives it and applies the mute; the answer of \<open>finish_vote\<close>, which is \<open>None\<close>
  for a vote already archived, is not looked at. When the handler's call and the timer's
  call have both read the vote row before either goes on, both restrict the target, both
  store a mute and both rewrite the prompt; only the move to the history happens once.
  A call that starts after the first has finished does nothing.
\<close>

theorem double_resolution:
  "get_vote_by_id 1 (votes threshold_world) = Some demo_vote
   \<and> get_vote_results 1 (votes threshold_world) = (3, 2)
   \<and> calls both_resolved
       = [RestrictMute 100 20 (minutes 35), EditMessage 100 (Some 500) TextMuted,
          RestrictMute 100 20 (minutes 35), EditMessage 100 (Some 500) TextMuted]
   \<and> map p_id (active_mutes_of 100 20 (moderation both_resolved)) = [1, 2]
   \<and> map h_reason (vote_history (votes both_resolved)) = [MajorityFor]
   \<and> calls (finish_votemute demo_env (minutes 5) (minutes 5) 1 ''success'' TimeoutMajorityFor
        first_resolved) = calls first_resolved"
  by code_simp

section \<open>Facts about the expiry loops\<close>

lemma winners_snoc:
  "winners pid (tr @ [Deactivated i p b]) = winners pid tr @ (if p = pid \<and> b then [i] else [])"
  "winners pid (tr @ [Called i p c]) = winners pid tr"
  by (simp_all add: winners_def map_filter_def)

lemma effects_snoc:
  "effects pid (tr @ [Deactivated i p b]) = effects pid tr"
  "effects pid (tr @ [Called i p c]) = effects pid tr @ (if p = pid then [(i, c)] else [])"
  by (simp_all add: effects_def map_filter_def)

lemma deactivate_answer:
  "fst (deactivate_punishment pid db) \<longleftrightarrow> (\<exists>p \<in> set (punishments db). p_id p = pid \<and> active p)"
  by (simp add: deactivate_punishment_def list_ex_iff)

lemma deactivate_last: "last_punishment_id (snd (deactivate_punishment pid db)) = last_punishment_id db"
  by (simp add: deactivate_punishment_def)

lemma deactivate_punishments:
  "punishments (snd (deactivate_punishment pid db)) = map (retire {pid}) (punishments db)"
  by (simp add: deactivate_punishment_def retire_def)

lemma retire_id: "p_id (retire S p) = p_id p"
  by (simp add: retire_def)

lemma retire_active: "active (retire S p) \<longleftrightarrow> active p \<and> p_id p \<notin> S"
  by (simp add: retire_def)

lemma wf_store_deactivate: "wf_store db \<Longrightarrow> wf_store (snd (deactivate_punishment pid db))"
  by (simp add: wf_store_def deactivate_punishments deactivate_last list_all_iff retire_id o_def)

lemma wf_store_add:
  "wf_store db \<Longrightarrow> wf_store (snd (add_punishment chat user moderator ptype duration expiry db))"
  by (fastforce simp: wf_store_def add_punishment_def Let_def list_all_iff)

lemma distinct_mute_reversal: "distinct (mute_reversal chat m)"
  by (simp add: mute_reversal_def)

lemma distinct_ban_reversal: "distinct (ban_reversal chat m)"
  by (simp add: ban_reversal_def)

lemma mutes_step_shape:
  assumes "process_chat_mutes i now ans status chat ct pc0 w = (pc', w')"
  shows "quiet pc' w w'
       \<or> (\<exists>m ms. pc0 = AtCas m ms \<and> (pc', w') = try_deactivate i m ms w)
       \<or> (\<exists>m ms cs. pc0 = AtResult True m ms \<and> pc' = AtCalls cs m ms \<and> distinct cs
            \<and> trace w' = trace w \<and> store w' = store w)
       \<or> (\<exists>c cs m ms. pc0 = AtCalls (c # cs) m ms
            \<and> (pc' = AtCalls cs m ms \<or> (\<exists>r. pc' = AtLoop r))
            \<and> w' = make_call i m c w)"
  using assms
  by (cases "(i, now, ans, status, chat, ct, pc0, w)" rule: process_chat_mutes.cases)
     (auto simp: quiet_def Let_def mark_processed_def distinct_mute_reversal
           split: if_splits option.splits)

lemma bans_step_shape:
  assumes "process_chat_bans i now ans chat pc0 w = (pc', w')"
  shows "quiet pc' w w'
       \<or> (\<exists>m ms. pc0 = AtCas m ms \<and> (pc', w') = try_deactivate i m ms w)
       \<or> (\<exists>m ms cs. pc0 = AtResult True m ms \<and> pc' = AtCalls cs m ms \<and> distinct cs
            \<and> trace w' = trace w \<and> store w' = store w)
       \<or> (\<exists>c cs m ms. pc0 = AtCalls (c # cs) m ms
            \<and> (pc' = AtCalls cs m ms \<or> (\<exists>r. pc' = AtLoop r))
            \<and> w' = make_call i m c w)"
  using assms
  by (cases "(i, now, ans, chat, pc0, w)" rule: process_chat_bans.cases)
     (auto simp: quiet_def Let_def distinct_ban_reversal split: if_splits option.splits)

lemma scan_step_shape:
  assumes "scan_step i now ans status t w = (pc', w')"
  shows "quiet pc' w w'
       \<or> (\<exists>m ms. pc t = AtCas m ms \<and> (pc', w') = try_deactivate i m ms w)
       \<or> (\<exists>m ms cs. pc t = AtResult True m ms \<and> pc' = AtCalls cs m ms \<and> distinct cs
            \<and> trace w' = trace w \<and> store w' = store w)
       \<or> (\<exists>c cs m ms. pc t = AtCalls (c # cs) m ms
            \<and> (pc' = AtCalls cs m ms \<or> (\<exists>r. pc' = AtLoop r))
            \<and> w' = make_call i m c w)"
proof (cases "kind t")
  case MuteScan
  with assms show ?thesis
    using mutes_step_shape [of i now ans status "task_chat t" "current_time t" "pc t" w pc' w']
    by (simp add: scan_step_def)
next
  case BanScan
  with assms show ?thesis
    using bans_step_shape [of i now ans "task_chat t" "pc t" w pc' w']
    by (simp add: scan_step_def)
qed

lemma settledI:
  assumes "length (winners pid (trace w)) \<le> 1"
    and "winners pid (trace w) \<noteq> [] \<Longrightarrow> pid \<le> last_punishment_id (store w)"
    and "\<And>p. winners pid (trace w) \<noteq> [] \<Longrightarrow> p \<in> set (punishments (store w)) \<Longrightarrow>
            p_id p = pid \<Longrightarrow> \<not> active p"
    and "\<And>e. e \<in> set (effects pid (trace w)) \<Longrightarrow> winners pid (trace w) = [fst e]"
    and "distinct (map snd (effects pid (trace w)))"
    and "\<And>i m ms. pc (ts i) = AtResult True m ms \<Longrightarrow> p_id m = pid \<Longrightarrow>
            winners pid (trace w) = [i] \<and> effects pid (trace w) = []"
    and "\<And>i cs m ms. pc (ts i) = AtCalls cs m ms \<Longrightarrow> p_id m = pid \<Longrightarrow>
            winners pid (trace w) = [i] \<and> distinct (map snd (effects pid (trace w)) @ cs)"
  shows "settled pid (ts, w)"
  unfolding settled_def by (simp only: prod.case) (use assms in blast)

lemma settledD:
  assumes "settled pid (ts, w)"
  shows "length (winners pid (trace w)) \<le> 1"
    and "winners pid (trace w) \<noteq> [] \<Longrightarrow> pid \<le> last_punishment_id (store w)"
    and "winners pid (trace w) \<noteq> [] \<Longrightarrow> p \<in> set (punishments (store w)) \<Longrightarrow>
            p_id p = pid \<Longrightarrow> \<not> active p"
    and "e \<in> set (effects pid (trace w)) \<Longrightarrow> winners pid (trace w) = [fst e]"
    and "distinct (map snd (effects pid (trace w)))"
    and "pc (ts i) = AtResult True m ms \<Longrightarrow> p_id m = pid \<Longrightarrow>
            winners pid (trace w) = [i] \<and> effects pid (trace w) = []"
    and "pc (ts i) = AtCalls cs m ms \<Longrightarrow> p_id m = pid \<Longrightarrow>
            winners pid (trace w) = [i] \<and> distinct (map snd (effects pid (trace w)) @ cs)"
  using assms unfolding settled_def by (simp; blast)+

lemma retired_inactive:
  assumes "p \<in> set (map (retire {pid}) ps)" and "p_id p = pid"
  shows "\<not> active p"
proof -
  from assms(1) obtain x where x: "p = retire {pid} x" by auto
  with assms(2) have "p_id x = pid" by (simp add: retire_id)
  with x show ?thesis by (simp add: retire_active)
qed

lemma settled_frame:
  assumes inv: "settled pid (ts, w)"
    and "trace w' = trace w" and "last_punishment_id (store w) \<le> last_punishment_id (store w')"
    and keep: "\<And>p. winners pid (trace w) \<noteq> [] \<Longrightarrow> p \<in> set (punishments (store w')) \<Longrightarrow>
                 p_id p = pid \<Longrightarrow> \<not> active p"
    and res: "\<And>i m ms. pc (ts' i) = AtResult True m ms \<Longrightarrow> p_id m = pid \<Longrightarrow>
                 pc (ts i) = AtResult True m ms"
    and cal: "\<And>i cs m ms. pc (ts' i) = AtCalls cs m ms \<Longrightarrow> p_id m = pid \<Longrightarrow>
                 pc (ts i) = AtCalls cs m ms
                 \<or> (distinct cs \<and> (\<exists>ms'. pc (ts i) = AtResult True m ms'))"
  shows "settled pid (ts', w')"
proof (rule settledI)
  show "length (winners pid (trace w')) \<le> 1"
    using settledD(1) [OF inv] assms(2) by simp
  show "pid \<le> last_punishment_id (store w')" if "winners pid (trace w') \<noteq> []"
    using settledD(2) [OF inv] that assms(2,3) by simp
  show "\<not> active p" if "winners pid (trace w') \<noteq> []" "p \<in> set (punishments (store w'))"
    "p_id p = pid" for p
    using keep that assms(2) by simp
  show "winners pid (trace w') = [fst e]" if "e \<in> set (effects pid (trace w'))" for e
    using settledD(4) [OF inv] that assms(2) by simp
  show "distinct (map snd (effects pid (trace w')))"
    using settledD(5) [OF inv] assms(2) by simp
  show "winners pid (trace w') = [i] \<and> effects pid (trace w') = []"
    if "pc (ts' i) = AtResult True m ms" "p_id m = pid" for i m ms
    using settledD(6) [OF inv res [OF that] that(2)] assms(2) by simp
  show "winners pid (trace w') = [i] \<and> distinct (map snd (effects pid (trace w')) @ cs)"
    if "pc (ts' i) = AtCalls cs m ms" "p_id m = pid" for i cs m ms
  proof -
    from cal [OF that] show ?thesis
    proof
      assume "pc (ts i) = AtCalls cs m ms"
      from settledD(7) [OF inv this that(2)] show ?thesis by (simp add: assms(2))
    next
      assume "distinct cs \<and> (\<exists>ms'. pc (ts i) = AtResult True m ms')"
      then obtain ms' where "distinct cs" "pc (ts i) = AtResult True m ms'" by blast
      with settledD(6) [OF inv this(2) that(2)] show ?thesis by (simp add: assms(2))
    qed
  qed
qed

lemma settled_quiet:
  assumes "settled pid (ts, w)" and "quiet pc' w w'"
  shows "settled pid (ts(i := (ts i)\<lparr>pc := pc'\<rparr>), w')"
proof (rule settled_frame [OF assms(1)])
  show "trace w' = trace w" "last_punishment_id (store w) \<le> last_punishment_id (store w')"
    using assms(2) by (simp_all add: quiet_def)
  show "\<not> active p" if "winners pid (trace w) \<noteq> []" "p \<in> set (punishments (store w'))"
    "p_id p = pid" for p
    using settledD(3) [OF assms(1)] that assms(2) by (simp add: quiet_def)
  show "pc (ts j) = AtResult True m ms"
    if "pc ((ts(i := (ts i)\<lparr>pc := pc'\<rparr>)) j) = AtResult True m ms" for j m ms
    using that assms(2) by (auto simp: quiet_def split: if_splits)
  show "pc (ts j) = AtCalls cs m ms \<or> (distinct cs \<and> (\<exists>ms'. pc (ts j) = AtResult True m ms'))"
    if "pc ((ts(i := (ts i)\<lparr>pc := pc'\<rparr>)) j) = AtCalls cs m ms" for j cs m ms
    using that assms(2) by (auto simp: quiet_def split: if_splits)
qed

lemma settled_claim:
  assumes "settled pid (ts, w)" and "pc (ts i) = AtResult True m ms" and "pc' = AtCalls cs m ms"
    and "distinct cs" and "trace w' = trace w" and "store w' = store w"
  shows "settled pid (ts(i := (ts i)\<lparr>pc := pc'\<rparr>), w')"
proof (rule settled_frame [OF assms(1)])
  show "trace w' = trace w" "last_punishment_id (store w) \<le> last_punishment_id (store w')"
    using assms by simp_all
  show "\<not> active p" if "winners pid (trace w) \<noteq> []" "p \<in> set (punishments (store w'))"
    "p_id p = pid" for p
    using settledD(3) [OF assms(1)] that assms(6) by simp
  show "pc (ts j) = AtResult True m' ms'"
    if "pc ((ts(i := (ts i)\<lparr>pc := pc'\<rparr>)) j) = AtResult True m' ms'" for j m' ms'
    using that assms(3) by (auto split: if_splits)
  show "pc (ts j) = AtCalls cs' m' ms'
        \<or> (distinct cs' \<and> (\<exists>ms''. pc (ts j) = AtResult True m' ms''))"
    if "pc ((ts(i := (ts i)\<lparr>pc := pc'\<rparr>)) j) = AtCalls cs' m' ms'" for j cs' m' ms'
    using that assms(2,3,4) by (auto split: if_splits)
qed

lemma settled_call:
  assumes inv: "settled pid (ts, w)" and at: "pc (ts i) = AtCalls (c # cs) m ms"
    and next_: "pc' = AtCalls cs m ms \<or> (\<exists>r. pc' = AtLoop r)"
    and w': "w' = make_call i m c w"
  shows "settled pid (ts(i := (ts i)\<lparr>pc := pc'\<rparr>), w')"
proof (cases "p_id m = pid")
  case False
  have tr: "winners pid (trace w') = winners pid (trace w)"
    "effects pid (trace w') = effects pid (trace w)"
    using False by (simp_all add: w' make_call_def winners_snoc effects_snoc)
  have st: "store w' = store w" by (simp add: w' make_call_def)
  show ?thesis
  proof (rule settledI)
    show "length (winners pid (trace w')) \<le> 1"
      using settledD(1) [OF inv] tr by simp
    show "pid \<le> last_punishment_id (store w')" if "winners pid (trace w') \<noteq> []"
      using settledD(2) [OF inv] that tr st by simp
    show "\<not> active p" if "winners pid (trace w') \<noteq> []" "p \<in> set (punishments (store w'))"
      "p_id p = pid" for p
      using settledD(3) [OF inv] that tr st by simp
    show "winners pid (trace w') = [fst e]" if "e \<in> set (effects pid (trace w'))" for e
      using settledD(4) [OF inv] that tr by simp
    show "distinct (map snd (effects pid (trace w')))"
      using settledD(5) [OF inv] tr by simp
    show "winners pid (trace w') = [j] \<and> effects pid (trace w') = []"
      if "pc ((ts(i := (ts i)\<lparr>pc := pc'\<rparr>)) j) = AtResult True m' ms'" "p_id m' = pid"
      for j m' ms'
    proof -
      from that(1) next_ have "pc (ts j) = AtResult True m' ms'"
        by (auto split: if_splits)
      from settledD(6) [OF inv this that(2)] tr show ?thesis by simp
    qed
    show "winners pid (trace w') = [j] \<and> distinct (map snd (effects pid (trace w')) @ cs')"
      if "pc ((ts(i := (ts i)\<lparr>pc := pc'\<rparr>)) j) = AtCalls cs' m' ms'" "p_id m' = pid"
      for j cs' m' ms'
    proof -
      from that next_ False have "pc (ts j) = AtCalls cs' m' ms'"
        by (auto split: if_splits)
      from settledD(7) [OF inv this that(2)] tr show ?thesis by simp
    qed
  qed
next
  case True
  from settledD(7) [OF inv at True]
  have mine: "winners pid (trace w) = [i]"
    and fresh: "distinct (map snd (effects pid (trace w)) @ c # cs)"
    by simp_all
  have win: "winners pid (trace w') = [i]"
    using mine by (simp add: w' make_call_def winners_snoc)
  have eff: "effects pid (trace w') = effects pid (trace w) @ [(i, c)]"
    using True by (simp add: w' make_call_def effects_snoc)
  have st: "store w' = store w" by (simp add: w' make_call_def)
  show ?thesis
  proof (rule settledI)
    show "length (winners pid (trace w')) \<le> 1"
      by (simp add: win)
    show "pid \<le> last_punishment_id (store w')" if "winners pid (trace w') \<noteq> []"
      using settledD(2) [OF inv] mine st by simp
    show "\<not> active p" if "winners pid (trace w') \<noteq> []" "p \<in> set (punishments (store w'))"
      "p_id p = pid" for p
      using settledD(3) [OF inv] mine that st by simp
    show "winners pid (trace w') = [fst e]" if "e \<in> set (effects pid (trace w'))" for e
      using settledD(4) [OF inv, of e] that mine win eff by auto
    show "distinct (map snd (effects pid (trace w')))"
      using fresh eff by auto
    show "winners pid (trace w') = [j] \<and> effects pid (trace w') = []"
      if "pc ((ts(i := (ts i)\<lparr>pc := pc'\<rparr>)) j) = AtResult True m' ms'" "p_id m' = pid"
      for j m' ms'
    proof -
      from that(1) next_ have j: "j \<noteq> i" "pc (ts j) = AtResult True m' ms'"
        by (auto split: if_splits)
      from settledD(6) [OF inv j(2) that(2)] mine j(1) show ?thesis by simp
    qed
    show "winners pid (trace w') = [j] \<and> distinct (map snd (effects pid (trace w')) @ cs')"
      if "pc ((ts(i := (ts i)\<lparr>pc := pc'\<rparr>)) j) = AtCalls cs' m' ms'" "p_id m' = pid"
      for j cs' m' ms'
    proof (cases "j = i")
      case True
      with that(1) next_ have "cs' = cs" by auto
      with True win eff fresh show ?thesis by auto
    next
      case False
      with that(1) have "pc (ts j) = AtCalls cs' m' ms'" by simp
      from settledD(7) [OF inv this that(2)] mine False show ?thesis by simp
    qed
  qed
qed

lemma settled_cas:
  assumes inv: "settled pid (ts, w)" and wf: "wf_store (store w)"
    and step: "(pc', w') = try_deactivate i m ms w"
  shows "settled pid (ts(i := (ts i)\<lparr>pc := pc'\<rparr>), w')"
proof -
  let ?b = "fst (deactivate_punishment (p_id m) (store w))"
  have pc': "pc' = AtResult ?b m ms"
    and tr': "trace w' = trace w @ [Deactivated i (p_id m) ?b]"
    and st': "store w' = snd (deactivate_punishment (p_id m) (store w))"
    using step by (simp_all add: try_deactivate_def Let_def)
  have still: "\<not> active p"
    if "p \<in> set (punishments (store w'))" "p_id p = q"
      "\<And>p. p \<in> set (punishments (store w)) \<Longrightarrow> p_id p = q \<Longrightarrow> \<not> active p" for p q
    using that by (auto simp: st' deactivate_punishments retire_id retire_active)
  have last': "last_punishment_id (store w') = last_punishment_id (store w)"
    by (simp add: st' deactivate_last)
  show ?thesis
  proof (cases "p_id m = pid \<and> ?b")
    case False
    then have tr: "winners pid (trace w') = winners pid (trace w)"
      "effects pid (trace w') = effects pid (trace w)"
      by (auto simp: tr' winners_snoc effects_snoc)
    show ?thesis
    proof (rule settledI)
      show "length (winners pid (trace w')) \<le> 1"
        using settledD(1) [OF inv] tr by simp
      show "pid \<le> last_punishment_id (store w')" if "winners pid (trace w') \<noteq> []"
        using settledD(2) [OF inv] that tr last' by simp
      show "\<not> active p" if "winners pid (trace w') \<noteq> []" "p \<in> set (punishments (store w'))"
        "p_id p = pid" for p
        using still [OF that(2,3)] settledD(3) [OF inv] that(1) tr by simp
      show "winners pid (trace w') = [fst e]" if "e \<in> set (effects pid (trace w'))" for e
        using settledD(4) [OF inv] that tr by simp
      show "distinct (map snd (effects pid (trace w')))"
        using settledD(5) [OF inv] tr by simp
      show "winners pid (trace w') = [j] \<and> effects pid (trace w') = []"
        if "pc ((ts(i := (ts i)\<lparr>pc := pc'\<rparr>)) j) = AtResult True m' ms'" "p_id m' = pid"
        for j m' ms'
      proof -
        from that False have "pc (ts j) = AtResult True m' ms'"
          by (auto simp: pc' split: if_splits)
        from settledD(6) [OF inv this that(2)] tr show ?thesis by simp
      qed
      show "winners pid (trace w') = [j] \<and> distinct (map snd (effects pid (trace w')) @ cs')"
        if "pc ((ts(i := (ts i)\<lparr>pc := pc'\<rparr>)) j) = AtCalls cs' m' ms'" "p_id m' = pid"
        for j cs' m' ms'
      proof -
        from that have "pc (ts j) = AtCalls cs' m' ms'"
          by (auto simp: pc' split: if_splits)
        from settledD(7) [OF inv this that(2)] tr show ?thesis by simp
      qed
    qed
  next
    case True
    then obtain p where p: "p \<in> set (punishments (store w))" "p_id p = pid" "active p"
      by (auto simp: deactivate_answer)
    have none: "winners pid (trace w) = []"
      using settledD(3) [OF inv _ p(1,2)] p(3) by blast
    have no_eff: "effects pid (trace w) = []"
    proof (cases "effects pid (trace w)")
      case (Cons e es)
      then have "e \<in> set (effects pid (trace w))" by simp
      from settledD(4) [OF inv this] none show ?thesis by simp
    qed simp
    have bound: "pid \<le> last_punishment_id (store w)"
      using wf p by (auto simp: wf_store_def list_all_iff)
    have win: "winners pid (trace w') = [i]" and eff: "effects pid (trace w') = []"
      using True none no_eff by (auto simp: tr' winners_snoc effects_snoc)
    show ?thesis
    proof (rule settledI)
      show "length (winners pid (trace w')) \<le> 1"
        by (simp add: win)
      show "pid \<le> last_punishment_id (store w')" if "winners pid (trace w') \<noteq> []"
        using bound last' by simp
      show "\<not> active q" if "q \<in> set (punishments (store w'))" "p_id q = pid" for q
        using that True retired_inactive [of q "p_id m" "punishments (store w)"]
        by (simp add: st' deactivate_punishments)
      show "winners pid (trace w') = [fst e]" if "e \<in> set (effects pid (trace w'))" for e
        using that eff by simp
      show "distinct (map snd (effects pid (trace w')))"
        by (simp add: eff)
      show "winners pid (trace w') = [j] \<and> effects pid (trace w') = []"
        if "pc ((ts(i := (ts i)\<lparr>pc := pc'\<rparr>)) j) = AtResult True m' ms'" "p_id m' = pid"
        for j m' ms'
      proof (cases "j = i")
        case True
        with win eff show ?thesis by simp
      next
        case False
        with that(1) have "pc (ts j) = AtResult True m' ms'" by simp
        from settledD(6) [OF inv this that(2)] none show ?thesis by simp
      qed
      show "winners pid (trace w') = [j] \<and> distinct (map snd (effects pid (trace w')) @ cs')"
        if "pc ((ts(i := (ts i)\<lparr>pc := pc'\<rparr>)) j) = AtCalls cs' m' ms'" "p_id m' = pid"
        for j cs' m' ms'
      proof -
        from that(1) have "pc (ts j) = AtCalls cs' m' ms'"
          by (auto simp: pc' split: if_splits)
        from settledD(7) [OF inv this that(2)] none show ?thesis by simp
      qed
    qed
  qed
qed

lemma settled_run:
  assumes "settled pid (ts, w)" and "wf_store (store w)"
  shows "settled pid (perform (Run i now ans status) (ts, w))"
proof -
  obtain pc' w' where step: "scan_step i now ans status (ts i) w = (pc', w')"
    by (cases "scan_step i now ans status (ts i) w")
  from scan_step_shape [OF step] consider
      (quiet) "quiet pc' w w'"
    | (cas) m ms where "(pc', w') = try_deactivate i m ms w"
    | (claim) m ms cs where "pc (ts i) = AtResult True m ms" "pc' = AtCalls cs m ms"
        "distinct cs" "trace w' = trace w" "store w' = store w"
    | (call) c cs m ms where "pc (ts i) = AtCalls (c # cs) m ms"
        "pc' = AtCalls cs m ms \<or> (\<exists>r. pc' = AtLoop r)" "w' = make_call i m c w"
    by blast
  then have "settled pid (ts(i := (ts i)\<lparr>pc := pc'\<rparr>), w')"
  proof cases
    case quiet
    with assms(1) show ?thesis by (rule settled_quiet)
  next
    case cas
    with assms show ?thesis by (rule settled_cas)
  next
    case claim
    with assms(1) show ?thesis by (rule settled_claim)
  next
    case call
    with assms(1) show ?thesis by (rule settled_call)
  qed
  with step show ?thesis by (simp add: Let_def)
qed

lemma settled_store_change:
  assumes inv: "settled pid (ts, w)"
    and "last_punishment_id (store w) \<le> last_punishment_id (store w')"
    and "\<And>p. winners pid (trace w) \<noteq> [] \<Longrightarrow> p \<in> set (punishments (store w')) \<Longrightarrow>
            p_id p = pid \<Longrightarrow> \<not> active p"
    and "trace w' = trace w"
  shows "settled pid (ts, w')"
  by (rule settled_frame [OF inv assms(4) assms(2)]) (use assms(3) in auto)

lemma settled_perform:
  assumes inv: "settled pid (ts, w)" and wf: "wf_store (store w)"
  shows "settled pid (perform a (ts, w))"
proof (cases a)
  case (Run i now ans status)
  with assms show ?thesis by (simp only: settled_run)
next
  case (Prune t)
  have "settled pid (ts, w\<lparr>recently_processed :=
          filter (\<lambda>kv. t - snd kv < seconds 60) (recently_processed w)\<rparr>)"
    by (rule settled_store_change [OF inv]) (use settledD(3) [OF inv] in auto)
  with Prune show ?thesis by simp
next
  case (Revoke q)
  have "settled pid (ts, w\<lparr>store := snd (deactivate_punishment q (store w))\<rparr>)"
    by (rule settled_store_change [OF inv])
       (use settledD(3) [OF inv] in
         \<open>auto simp: deactivate_punishments deactivate_last retire_id retire_active\<close>)
  with Revoke show ?thesis by simp
next
  case (Issue chat user moderator ptype duration expiry)
  have "settled pid (ts, w\<lparr>store :=
          snd (add_punishment chat user moderator ptype duration expiry (store w))\<rparr>)"
  proof (rule settled_store_change [OF inv])
    fix p
    assume won: "winners pid (trace w) \<noteq> []"
      and p: "p \<in> set (punishments (store (w\<lparr>store :=
                snd (add_punishment chat user moderator ptype duration expiry (store w))\<rparr>)))"
             "p_id p = pid"
    from settledD(2) [OF inv won] p settledD(3) [OF inv won]
    show "\<not> active p"
      by (auto simp: add_punishment_def Let_def)
  qed (simp_all add: add_punishment_def Let_def)
  with Issue show ?thesis by simp
qed

lemma wf_store_step:
  "wf_store (store w) \<Longrightarrow> wf_store (store (snd (scan_step i now ans status t w)))"
  using scan_step_shape [of i now ans status t w "fst (scan_step i now ans status t w)"
          "snd (scan_step i now ans status t w)"]
  by (auto simp: quiet_def try_deactivate_def make_call_def Let_def wf_store_deactivate)

lemma wf_store_perform:
  "wf_store (store (snd cfg)) \<Longrightarrow> wf_store (store (snd (perform a cfg)))"
  by (cases a; cases cfg)
     (simp_all add: Let_def wf_store_step wf_store_deactivate wf_store_add)

lemma settled_schedule:
  assumes "\<forall>pid. settled pid cfg" and "wf_store (store (snd cfg))"
  shows "(\<forall>pid. settled pid (run_schedule sched cfg))
         \<and> wf_store (store (snd (run_schedule sched cfg)))"
  using assms
proof (induction sched arbitrary: cfg)
  case Nil
  then show ?case by simp
next
  case (Cons a sched)
  have "\<forall>pid. settled pid (perform a cfg)"
    using Cons.prems settled_perform [of _ "fst cfg" "snd cfg" a] by simp
  moreover have "wf_store (store (snd (perform a cfg)))"
    using Cons.prems(2) by (rule wf_store_perform)
  ultimately show ?case
    using Cons.IH [of "perform a cfg"] by simp
qed

lemma settled_initial:
  assumes "\<forall>i. pc (ts i) = AtStart" and "trace w = []"
  shows "settled pid (ts, w)"
  using assms by (simp add: settled_def winners_def effects_def map_filter_def)

lemma mutes_step_frame:
  assumes "process_chat_mutes i now ans status chat ct pc0 w = (pc', w')"
  shows "step_frame now pc0 w pc' w'"
  using assms
  by (cases "(i, now, ans, status, chat, ct, pc0, w)" rule: process_chat_mutes.cases)
     (auto simp: step_frame_def Let_def mark_processed_def try_deactivate_def make_call_def
           get_active_punishments_def due_def split: if_splits option.splits)

lemma bans_step_frame:
  assumes "process_chat_bans i now ans chat pc0 w = (pc', w')"
  shows "step_frame now pc0 w pc' w'"
  using assms
  by (cases "(i, now, ans, chat, pc0, w)" rule: process_chat_bans.cases)
     (auto simp: step_frame_def Let_def try_deactivate_def make_call_def
           get_active_punishments_def due_def split: if_splits option.splits)

lemma scan_step_frame:
  assumes "scan_step i now ans status t w = (pc', w')"
  shows "step_frame now (pc t) w pc' w'"
  using assms mutes_step_frame bans_step_frame
  by (cases "kind t") (simp_all add: scan_step_def)

lemma retire_other: "p_id p \<notin> S \<Longrightarrow> retire S p = p"
  by (simp add: retire_def)

lemma deactivate_keeps:
  assumes "p \<in> set (punishments db)" and "p_id p \<noteq> pid"
  shows "p \<in> set (punishments (snd (deactivate_punishment pid db)))"
proof -
  have "retire {pid} p = p" using assms(2) by (simp add: retire_other)
  with assms(1) show ?thesis
    by (force simp: deactivate_punishments)
qed

lemma wf_store_unique:
  assumes "wf_store db" and "p \<in> set (punishments db)" and "m \<in> set (punishments db)"
    and "p_id m = p_id p"
  shows "m = p"
  using assms by (auto simp: wf_store_def distinct_map inj_on_def)

lemma about_snoc: "about pid (tr @ [ev]) = about pid tr @ (if event_pid ev = pid then [ev] else [])"
  by (simp add: about_def)

lemma due_cong: "expiry_date m = expiry_date p \<Longrightarrow> due now m = due now p"
  by (simp add: due_def)

lemma untouched_run:
  assumes inv: "untouched p (ts, w)" and wf: "wf_store (store w)" and early: "\<not> due now p"
  shows "untouched p (perform (Run i now ans status) (ts, w))"
proof -
  obtain pc' w' where step: "scan_step i now ans status (ts i) w = (pc', w')"
    by (cases "scan_step i now ans status (ts i) w")
  from inv have p_in: "p \<in> set (punishments (store w))"
    and quiet_: "about (p_id p) (trace w) = []"
    and cur: "\<And>j m. current (pc (ts j)) = Some m \<Longrightarrow> p_id m \<noteq> p_id p"
    and held: "\<And>j m. m \<in> set (rest (pc (ts j))) \<Longrightarrow> p_id m = p_id p \<Longrightarrow>
                 expiry_date m = expiry_date p"
    unfolding untouched_def by auto
  from scan_step_frame [OF step]
  have f1: "set (rest pc') \<subseteq> set (rest (pc (ts i))) \<union> set (punishments (store w))"
    and f2: "\<And>m. current pc' = Some m \<Longrightarrow>
               current (pc (ts i)) = Some m \<or> (m \<in> set (rest (pc (ts i))) \<and> due now m)"
    and f3: "store w' = store w
             \<or> (\<exists>m. current (pc (ts i)) = Some m
                    \<and> store w' = snd (deactivate_punishment (p_id m) (store w)))"
    and f4: "trace w' = trace w
             \<or> (\<exists>m ev. current (pc (ts i)) = Some m \<and> event_pid ev = p_id m
                    \<and> trace w' = trace w @ [ev])"
    unfolding step_frame_def by auto
  have a: "p \<in> set (punishments (store w'))"
    using f3
  proof
    assume "store w' = store w"
    with p_in show ?thesis by simp
  next
    assume "\<exists>m. current (pc (ts i)) = Some m
              \<and> store w' = snd (deactivate_punishment (p_id m) (store w))"
    then obtain m where m: "current (pc (ts i)) = Some m"
      "store w' = snd (deactivate_punishment (p_id m) (store w))" by blast
    from cur [OF m(1)] have "p_id p \<noteq> p_id m" by simp
    from deactivate_keeps [OF p_in this] m(2) show ?thesis by simp
  qed
  have b: "about (p_id p) (trace w') = []"
    using f4 quiet_ cur [of i] by (auto simp: about_snoc)
  have c: "p_id m \<noteq> p_id p" if "current (pc ((ts(i := (ts i)\<lparr>pc := pc'\<rparr>)) j)) = Some m" for j m
  proof (cases "j = i")
    case False
    with that cur [of j m] show ?thesis by simp
  next
    case True
    with that have "current pc' = Some m" by simp
    from f2 [OF this] show ?thesis
    proof
      assume "current (pc (ts i)) = Some m"
      then show ?thesis by (rule cur)
    next
      assume m: "m \<in> set (rest (pc (ts i))) \<and> due now m"
      show ?thesis
      proof
        assume "p_id m = p_id p"
        with m held [of m i] have "expiry_date m = expiry_date p" by simp
        from due_cong [OF this, of now] m early show False by simp
      qed
    qed
  qed
  have d: "expiry_date m = expiry_date p"
    if "m \<in> set (rest (pc ((ts(i := (ts i)\<lparr>pc := pc'\<rparr>)) j)))" "p_id m = p_id p" for j m
  proof (cases "j = i")
    case False
    with that held [of m j] show ?thesis by simp
  next
    case True
    with that have "m \<in> set (rest pc')" by simp
    with f1 have "m \<in> set (rest (pc (ts i))) \<or> m \<in> set (punishments (store w))" by auto
    then show ?thesis
    proof
      assume "m \<in> set (rest (pc (ts i)))"
      from held [OF this that(2)] show ?thesis .
    next
      assume "m \<in> set (punishments (store w))"
      from wf_store_unique [OF wf p_in this that(2)] show ?thesis by simp
    qed
  qed
  have "untouched p (ts(i := (ts i)\<lparr>pc := pc'\<rparr>), w')"
    unfolding untouched_def using a b c d by (simp only: prod.case) blast
  with step show ?thesis by (simp add: Let_def)
qed

lemma untouched_perform:
  assumes inv: "untouched p cfg" and wf: "wf_store (store (snd cfg))"
    and early: "\<forall>now \<in> set (clock_readings [a]). \<not> due now p"
    and kept: "p_id p \<notin> set (revoked [a])"
  shows "untouched p (perform a cfg)"
proof (cases cfg)
  case (Pair ts w)
  show ?thesis
  proof (cases a)
    case (Run i now ans status)
    with early have "\<not> due now p" by simp
    with inv wf Pair have "untouched p (perform (Run i now ans status) (ts, w))"
      by (intro untouched_run) simp_all
    with Run Pair show ?thesis by simp
  next
    case (Prune t)
    with inv Pair show ?thesis by (simp add: untouched_def)
  next
    case (Revoke q)
    with kept have "q \<noteq> p_id p" by simp
    with inv Pair Revoke show ?thesis
      by (auto simp: untouched_def intro: deactivate_keeps)
  next
    case (Issue chat user moderator ptype duration expiry)
    with inv Pair show ?thesis
      by (auto simp: untouched_def add_punishment_def Let_def)
  qed
qed

lemma clock_readings_Cons:
  "set (clock_readings (a # as)) = set (clock_readings [a]) \<union> set (clock_readings as)"
  by (cases a) simp_all

lemma revoked_Cons: "set (revoked (a # as)) = set (revoked [a]) \<union> set (revoked as)"
  by (cases a) simp_all

lemma untouched_schedule:
  assumes "untouched p cfg" and "wf_store (store (snd cfg))"
    and "\<forall>now \<in> set (clock_readings sched). \<not> due now p"
    and "p_id p \<notin> set (revoked sched)"
  shows "untouched p (run_schedule sched cfg)"
  using assms
proof (induction sched arbitrary: cfg)
  case Nil
  then show ?case by simp
next
  case (Cons a sched)
  have here: "\<forall>now \<in> set (clock_readings [a]). \<not> due now p" "p_id p \<notin> set (revoked [a])"
    and later: "\<forall>now \<in> set (clock_readings sched). \<not> due now p" "p_id p \<notin> set (revoked sched)"
    using Cons.prems(3,4) clock_readings_Cons [of a sched] revoked_Cons [of a sched]
    by auto
  have "untouched p (perform a cfg)"
    using Cons.prems(1,2) here by (rule untouched_perform)
  moreover have "wf_store (store (snd (perform a cfg)))"
    using Cons.prems(2) by (rule wf_store_perform)
  ultimately show ?case
    using Cons.IH [of "perform a cfg"] later by simp
qed

lemma distinct_active:
  "distinct (map p_id ps) \<Longrightarrow> distinct (map p_id (filter P ps))"
  by (rule distinct_map_filter)

lemma mutes_step_todo:
  assumes "process_chat_mutes i now ans status chat ct pc0 w = (pc', w')"
  shows "step_todo pc0 w pc'"
  using assms
  by (cases "(i, now, ans, status, chat, ct, pc0, w)" rule: process_chat_mutes.cases)
     (auto simp: step_todo_def Let_def try_deactivate_def get_active_punishments_def
           distinct_active split: if_splits option.splits)

lemma bans_step_todo:
  assumes "process_chat_bans i now ans chat pc0 w = (pc', w')"
  shows "step_todo pc0 w pc'"
  using assms
  by (cases "(i, now, ans, chat, pc0, w)" rule: process_chat_bans.cases)
     (auto simp: step_todo_def Let_def try_deactivate_def get_active_punishments_def
           distinct_active split: if_splits option.splits)

lemma mutes_step_trace:
  assumes "process_chat_mutes i now ans status chat ct pc0 w = (pc', w')"
  shows "step_trace i pc0 w pc' w'"
  using assms
  by (cases "(i, now, ans, status, chat, ct, pc0, w)" rule: process_chat_mutes.cases)
     (auto simp: step_trace_def Let_def mark_processed_def try_deactivate_def make_call_def
           split: if_splits option.splits)

lemma bans_step_trace:
  assumes "process_chat_bans i now ans chat pc0 w = (pc', w')"
  shows "step_trace i pc0 w pc' w'"
  using assms
  by (cases "(i, now, ans, chat, pc0, w)" rule: process_chat_bans.cases)
     (auto simp: step_trace_def Let_def try_deactivate_def make_call_def
           split: if_splits option.splits)

lemma scan_step_todo:
  assumes "scan_step i now ans status t w = (pc', w')"
  shows "step_todo (pc t) w pc'"
  using assms mutes_step_todo bans_step_todo
  by (cases "kind t") (simp_all add: scan_step_def)

lemma scan_step_trace:
  assumes "scan_step i now ans status t w = (pc', w')"
  shows "step_trace i (pc t) w pc' w'"
  using assms mutes_step_trace bans_step_trace
  by (cases "kind t") (simp_all add: scan_step_def)

lemma asked_onceD:
  assumes "asked_once (ts, w)"
  shows "distinct (map p_id (todo (pc (ts j))))"
    and "answered j pid (trace w) \<Longrightarrow> pid \<notin> p_id ` set (todo (pc (ts j)))"
    and "answered j pid (trace w) \<Longrightarrow> \<not> unstarted (pc (ts j))"
    and "Deactivated j pid True \<in> set (trace w) \<Longrightarrow> Deactivated j pid False \<notin> set (trace w)"
  using assms unfolding asked_once_def by (simp; blast)+

lemma asked_onceI:
  assumes "\<And>j. distinct (map p_id (todo (pc (ts j))))"
    and "\<And>j pid. answered j pid (trace w) \<Longrightarrow> pid \<notin> p_id ` set (todo (pc (ts j)))"
    and "\<And>j pid. answered j pid (trace w) \<Longrightarrow> \<not> unstarted (pc (ts j))"
    and "\<And>j pid. Deactivated j pid True \<in> set (trace w) \<Longrightarrow>
            Deactivated j pid False \<notin> set (trace w)"
  shows "asked_once (ts, w)"
  unfolding asked_once_def by (simp only: prod.case) (use assms in blast)

lemma answered_called: "answered j pid (tr @ [Called i q c]) = answered j pid tr"
  by (simp add: answered_def)

lemma answered_deactivated:
  "answered j pid (tr @ [Deactivated i q b]) \<longleftrightarrow> answered j pid tr \<or> (j = i \<and> pid = q)"
  by (cases b) (auto simp: answered_def)

lemma todo_shrinks:
  assumes "xs = ys \<or> xs = tl ys \<or> xs = []" and "distinct (map p_id ys)"
  shows "distinct (map p_id xs)" and "p_id ` set xs \<subseteq> p_id ` set ys"
  using assms by (cases ys; auto)+

lemma asked_once_run:
  assumes inv: "asked_once (ts, w)" and wf: "wf_store (store w)"
  shows "asked_once (perform (Run i now ans status) (ts, w))"
proof -
  obtain pc' w' where step: "scan_step i now ans status (ts i) w = (pc', w')"
    by (cases "scan_step i now ans status (ts i) w")
  let ?ts = "ts(i := (ts i)\<lparr>pc := pc'\<rparr>)"
  have ids: "distinct (map p_id (punishments (store w)))"
    using wf by (simp add: wf_store_def)
  from scan_step_todo [OF step]
  have fresh: "unstarted (pc (ts i)) \<Longrightarrow> distinct (map p_id (todo pc'))"
    and going: "\<not> unstarted (pc (ts i)) \<Longrightarrow> \<not> unstarted pc'
        \<and> (todo pc' = todo (pc (ts i)) \<or> todo pc' = tl (todo (pc (ts i))) \<or> todo pc' = [])"
    using ids unfolding step_todo_def by (simp_all split: if_splits)
  have d': "distinct (map p_id (todo pc'))"
  proof (cases "unstarted (pc (ts i))")
    case True
    then show ?thesis by (rule fresh)
  next
    case False
    from going [OF False] asked_onceD(1) [OF inv, of i] show ?thesis
      using todo_shrinks(1) by blast
  qed
  have sub: "p_id ` set (todo pc') \<subseteq> p_id ` set (todo (pc (ts i)))"
    if "\<not> unstarted (pc (ts i))"
    using going [OF that] asked_onceD(1) [OF inv, of i] todo_shrinks(2) by blast
  from scan_step_trace [OF step] consider
      (same) "trace w' = trace w"
    | (cas) m ms b where "pc (ts i) = AtCas m ms" "pc' = AtResult b m ms"
        "trace w' = trace w @ [Deactivated i (p_id m) b]"
    | (call) q c where "trace w' = trace w @ [Called i q c]"
    unfolding step_trace_def by blast
  then have "asked_once (?ts, w')"
  proof cases
    case same
    show ?thesis
    proof (rule asked_onceI)
      show "distinct (map p_id (todo (pc (?ts j))))" for j
        using d' asked_onceD(1) [OF inv, of j] by simp
      show "pid \<notin> p_id ` set (todo (pc (?ts j)))" if "answered j pid (trace w')" for j pid
      proof (cases "j = i")
        case True
        from that same have a: "answered i pid (trace w)" using True by simp
        from asked_onceD(2,3) [OF inv a] sub True show ?thesis by auto
      next
        case False
        with that same asked_onceD(2) [OF inv, of j pid] show ?thesis by simp
      qed
      show "\<not> unstarted (pc (?ts j))" if "answered j pid (trace w')" for j pid
      proof (cases "j = i")
        case True
        from that same have a: "answered i pid (trace w)" using True by simp
        from asked_onceD(3) [OF inv a] going True show ?thesis by simp
      next
        case False
        with that same asked_onceD(3) [OF inv, of j pid] show ?thesis by simp
      qed
      show "Deactivated j pid False \<notin> set (trace w')"
        if "Deactivated j pid True \<in> set (trace w')" for j pid
        using that same asked_onceD(4) [OF inv, of j pid] by simp
    qed
  next
    case (call q c)
    show ?thesis
    proof (rule asked_onceI)
      show "distinct (map p_id (todo (pc (?ts j))))" for j
        using d' asked_onceD(1) [OF inv, of j] by simp
      show "pid \<notin> p_id ` set (todo (pc (?ts j)))" if "answered j pid (trace w')" for j pid
      proof (cases "j = i")
        case True
        from that call have a: "answered i pid (trace w)"
          using True by (simp add: answered_called)
        from asked_onceD(2,3) [OF inv a] sub True show ?thesis by auto
      next
        case False
        with that call asked_onceD(2) [OF inv, of j pid] show ?thesis
          by (simp add: answered_called)
      qed
      show "\<not> unstarted (pc (?ts j))" if "answered j pid (trace w')" for j pid
      proof (cases "j = i")
        case True
        from that call have a: "answered i pid (trace w)"
          using True by (simp add: answered_called)
        from asked_onceD(3) [OF inv a] going True show ?thesis by simp
      next
        case False
        with that call asked_onceD(3) [OF inv, of j pid] show ?thesis
          by (simp add: answered_called)
      qed
      show "Deactivated j pid False \<notin> set (trace w')"
        if "Deactivated j pid True \<in> set (trace w')" for j pid
        using that call asked_onceD(4) [OF inv, of j pid] by simp
    qed
  next
    case (cas m ms b)
    have here: "p_id m \<in> p_id ` set (todo (pc (ts i)))"
      using cas(1) by simp
    have first: "\<not> answered i (p_id m) (trace w)"
      using asked_onceD(2) [OF inv, of i "p_id m"] here by blast
    have dist: "distinct (map p_id (m # ms))"
      using asked_onceD(1) [OF inv, of i] cas(1) by simp
    show ?thesis
    proof (rule asked_onceI)
      show "distinct (map p_id (todo (pc (?ts j))))" for j
        using d' asked_onceD(1) [OF inv, of j] by simp
      show "pid \<notin> p_id ` set (todo (pc (?ts j)))" if "answered j pid (trace w')" for j pid
      proof (cases "j = i")
        case True
        from that cas(3) True
        have "answered i pid (trace w) \<or> pid = p_id m"
          by (simp add: answered_deactivated)
        then show ?thesis
        proof
          assume "answered i pid (trace w)"
          from asked_onceD(2) [OF inv this] cas(1,2) True show ?thesis by auto
        next
          assume "pid = p_id m"
          with dist cas(2) True show ?thesis by auto
        qed
      next
        case False
        with that cas(3) asked_onceD(2) [OF inv, of j pid] show ?thesis
          by (simp add: answered_deactivated)
      qed
      show "\<not> unstarted (pc (?ts j))" if "answered j pid (trace w')" for j pid
      proof (cases "j = i")
        case True
        with cas(2) show ?thesis by simp
      next
        case False
        with that cas(3) asked_onceD(3) [OF inv, of j pid] show ?thesis
          by (simp add: answered_deactivated)
      qed
      show "Deactivated j pid False \<notin> set (trace w')"
        if "Deactivated j pid True \<in> set (trace w')" for j pid
      proof (cases "j = i \<and> pid = p_id m")
        case True
        with first have "Deactivated j pid True \<notin> set (trace w)"
          "Deactivated j pid False \<notin> set (trace w)"
          by (simp_all add: answered_def)
        with that cas(3) show ?thesis by auto
      next
        case False
        with that cas(3) have "Deactivated j pid True \<in> set (trace w)" by auto
        from asked_onceD(4) [OF inv this] False cas(3) show ?thesis by auto
      qed
    qed
  qed
  with step show ?thesis by (simp add: Let_def)
qed

lemma asked_once_perform:
  assumes "asked_once cfg" and "wf_store (store (snd cfg))"
  shows "asked_once (perform a cfg)"
proof (cases cfg)
  case (Pair ts w)
  show ?thesis
  proof (cases a)
    case (Run i now ans status)
    with assms Pair show ?thesis using asked_once_run [of ts w i now ans status] by simp
  next
    case (Prune t)
    with assms Pair show ?thesis by (simp add: asked_once_def)
  next
    case (Revoke q)
    with assms Pair show ?thesis by (simp add: asked_once_def)
  next
    case (Issue chat user moderator ptype duration expiry)
    with assms Pair show ?thesis by (simp add: asked_once_def)
  qed
qed

lemma asked_once_schedule:
  assumes "asked_once cfg" and "wf_store (store (snd cfg))"
  shows "asked_once (run_schedule sched cfg)"
  using assms
proof (induction sched arbitrary: cfg)
  case Nil
  then show ?case by simp
next
  case (Cons a sched)
  have "asked_once (perform a cfg)"
    using Cons.prems by (rule asked_once_perform)
  moreover have "wf_store (store (snd (perform a cfg)))"
    using Cons.prems(2) by (rule wf_store_perform)
  ultimately show ?case
    using Cons.IH [of "perform a cfg"] by simp
qed

lemma asked_once_initial:
  assumes "\<forall>i. pc (ts i) = AtStart" and "trace w = []"
  shows "asked_once (ts, w)"
  using assms by (simp add: asked_once_def answered_def)

lemma winners_mem: "i \<in> set (winners pid tr) \<longleftrightarrow> Deactivated i pid True \<in> set tr"
proof (induction tr)
  case Nil
  show ?case by (simp add: winners_def map_filter_def)
next
  case (Cons ev tr)
  then show ?case
    by (cases ev) (auto simp: winners_def map_filter_def)
qed

lemma effects_mem: "(i, c) \<in> set (effects pid tr) \<longleftrightarrow> Called i pid c \<in> set tr"
proof (induction tr)
  case Nil
  show ?case by (simp add: effects_def map_filter_def)
next
  case (Cons ev tr)
  then show ?case
    by (cases ev) (auto simp: effects_def map_filter_def)
qed

section \<open>Reversal at most once\<close>

text \<open>
  C1. Start any number of scans of mutes and bans, interleave their steps in any order,
  with any clock readings and platform answers, and with other handlers deactivating and
  adding punishments in between. Then for every punishment id: at most one answer of
  \<open>deactivate_punishment\<close> to a scan was true; every platform call made for the
  punishment was made by the task that got that answer; and no call was made twice. So the
  reversal (lifting the restriction or ban, and the notices) happens at most once, and only
  in the task whose \<open>deactivate_punishment\<close> returned true; a task to which it
  returned false makes no platform call for the punishment.
\<close>

theorem at_most_once_reversal:
  assumes "wf_store (store w0)" and "\<forall>i. pc (ts0 i) = AtStart" and "trace w0 = []"
    and "tr = trace (snd (run_schedule sched (ts0, w0)))"
  shows "length (winners pid tr) \<le> 1
       \<and> (\<forall>i c. Called i pid c \<in> set tr \<longrightarrow> winners pid tr = [i])
       \<and> (\<forall>i. Deactivated i pid False \<in> set tr \<longrightarrow> (\<forall>c. Called i pid c \<notin> set tr))
       \<and> distinct (map snd (effects pid tr))"
proof -
  let ?cfg = "run_schedule sched (ts0, w0)"
  have "settled pid ?cfg"
    using settled_schedule [of "(ts0, w0)" sched] settled_initial [OF assms(2,3)] assms(1)
    by simp
  then have inv: "settled pid (fst ?cfg, snd ?cfg)"
    by simp
  have "asked_once ?cfg"
    using asked_once_schedule [of "(ts0, w0)" sched] asked_once_initial [OF assms(2,3)] assms(1)
    by simp
  then have once: "asked_once (fst ?cfg, snd ?cfg)"
    by simp
  have only: "winners pid tr = [i]" if "Called i pid c \<in> set tr" for i c
  proof -
    from that have "(i, c) \<in> set (effects pid tr)" by (simp add: effects_mem)
    from settledD(4) [OF inv, of "(i, c)"] this show ?thesis
      by (simp add: assms(4))
  qed
  have silent: "Called i pid c \<notin> set tr" if "Deactivated i pid False \<in> set tr" for i c
  proof
    assume "Called i pid c \<in> set tr"
    then have "i \<in> set (winners pid tr)" using only by simp
    then have "Deactivated i pid True \<in> set (trace (snd ?cfg))"
      by (simp add: winners_mem assms(4))
    from asked_onceD(4) [OF once this] that show False
      by (simp add: assms(4))
  qed
  from settledD(1,5) [OF inv] only silent show ?thesis
    unfolding assms(4) by blast
qed

theorem at_most_once_reversal_witness:
  "trace (snd (run_schedule race (scan_tasks0, scan_world0)))
     = [Deactivated 1 1 True, Deactivated 0 1 False,
        Called 1 1 (RestrictLift 100 20), Called 1 1 (SendMessage 100 TextUnmuted)]
   \<and> length (winners 1 (trace (snd (run_schedule race (scan_tasks0, scan_world0))))) \<le> 1
   \<and> distinct (map snd (effects 1 (trace (snd (run_schedule race (scan_tasks0, scan_world0))))))"
proof -
  have wf: "wf_store (store scan_world0)"
    by (simp add: scan_world0_def wf_store_def due_mute_def later_ban_def)
  have init: "\<forall>i. pc (scan_tasks0 i) = AtStart"
    by (simp add: scan_tasks0_def)
  have empty: "trace scan_world0 = []"
    by (simp add: scan_world0_def)
  have run: "trace (snd (run_schedule race (scan_tasks0, scan_world0)))
     = [Deactivated 1 1 True, Deactivated 0 1 False,
        Called 1 1 (RestrictLift 100 20), Called 1 1 (SendMessage 100 TextUnmuted)]"
    by code_simp
  from at_most_once_reversal [where sched = race and pid = 1, OF wf init empty refl] run
  show ?thesis by simp
qed

section \<open>No premature reversal\<close>

text \<open>
  C3. Take a punishment of the store that is active and either has no expiry date or
  expires later than every clock reading of the schedule, and that no other handler
  deactivates. Then, however the scans are interleaved, it is still in the store, active
  and unchanged, after the schedule, and the trace holds no event about it: no scan asked
  to deactivate it and no platform call was made for it.
\<close>

theorem no_premature_reversal:
  assumes "wf_store (store w0)" and "\<forall>i. pc (ts0 i) = AtStart" and "trace w0 = []"
    and "p \<in> set (punishments (store w0))" and "active p"
    and "\<forall>now \<in> set (clock_readings sched). \<not> due now p"
    and "p_id p \<notin> set (revoked sched)"
    and "w = snd (run_schedule sched (ts0, w0))"
  shows "p \<in> set (punishments (store w)) \<and> active p \<and> about (p_id p) (trace w) = []"
proof -
  have "untouched p (ts0, w0)"
    using assms(2,3,4) by (simp add: untouched_def about_def)
  from untouched_schedule [OF this _ assms(6,7)] assms(1)
  have "untouched p (run_schedule sched (ts0, w0))" by simp
  then show ?thesis
    using assms(5) unfolding untouched_def assms(8) by (auto split: prod.splits)
qed

theorem no_premature_reversal_witness:
  "later_ban \<in> set (punishments (store (snd (run_schedule race (scan_tasks0, scan_world0)))))
   \<and> active later_ban
   \<and> about 2 (trace (snd (run_schedule race (scan_tasks0, scan_world0)))) = []"
proof -
  have wf: "wf_store (store scan_world0)"
    by (simp add: scan_world0_def wf_store_def due_mute_def later_ban_def)
  have init: "\<forall>i. pc (scan_tasks0 i) = AtStart"
    by (simp add: scan_tasks0_def)
  have empty: "trace scan_world0 = []"
    by (simp add: scan_world0_def)
  have stored: "later_ban \<in> set (punishments (store scan_world0))"
    by (simp add: scan_world0_def)
  have act: "active later_ban" and pid: "p_id later_ban = 2"
    by (simp_all add: later_ban_def)
  have early: "\<forall>now \<in> set (clock_readings race). \<not> due now later_ban"
    by (simp add: race_def due_def later_ban_def seconds_def)
  have kept: "p_id later_ban \<notin> set (revoked race)"
    by (simp add: race_def)
  from no_premature_reversal [OF wf init empty stored act early kept refl] pid
  show ?thesis by simp
qed

end
